theory Spec2Isabelle
  imports Complex_Main
begin

section \<open>Python values and errors\<close>

text \<open>
  The exceptions the emulator's code can raise. Every raise of the source is an
  \<open>Inl\<close> result of the model.
\<close>

datatype error =
  ValueError | IndexError | KeyError | AttributeError | UnboundLocalError
  | ZeroDivisionError | TypeError

text \<open>
  \<open>int(math.log(n, 2))\<close> on an integer: \<open>math.log\<close> raises ValueError on
  \<open>n \<le> 0\<close>; on positive integers up to \<open>2 ^ 32\<close> the truncated quotient of
  the two floating-point logarithms is the floor of the binary logarithm (exact on
  every power of two), which is what \<open>ilog2\<close> computes.
\<close>

fun ilog2 :: "nat \<Rightarrow> nat" where
  "ilog2 n = (if n < 2 then 0 else Suc (ilog2 (n div 2)))"

declare ilog2.simps [simp del]

definition py_log2 :: "nat \<Rightarrow> error + int" where
  "py_log2 n = (if n = 0 then Inl ValueError else Inr (int (ilog2 n)))"

text \<open>\<open>bin(n)[2:]\<close>: the binary digits of a non-negative integer, most significant first.\<close>

fun bin_digits :: "nat \<Rightarrow> string" where
  "bin_digits n =
     (if n < 2 then [if n = 0 then CHR ''0'' else CHR ''1'']
      else bin_digits (n div 2) @ [if n mod 2 = 0 then CHR ''0'' else CHR ''1''])"

declare bin_digits.simps [simp del]

text \<open>
  \<open>int(s, 2)\<close> on a string of binary digits: ValueError on the empty string and on
  any character that is not a binary digit.
\<close>

fun bits_val :: "nat \<Rightarrow> string \<Rightarrow> error + nat" where
  "bits_val acc [] = Inr acc"
| "bits_val acc (c # cs) =
     (if c = CHR ''0'' then bits_val (2 * acc) cs
      else if c = CHR ''1'' then bits_val (2 * acc + 1) cs
      else Inl ValueError)"

definition py_int2 :: "string \<Rightarrow> error + nat" where
  "py_int2 s = (if s = [] then Inl ValueError else bits_val 0 s)"

text \<open>
  Python slicing \<open>s[start:stop]\<close>: a negative bound counts from the end, every bound
  is clamped to the sequence, and an empty range gives the empty sequence.
\<close>

definition norm_index :: "nat \<Rightarrow> int \<Rightarrow> nat" where
  "norm_index len i = (if i < 0 then nat (max 0 (int len + i)) else min (nat i) len)"

definition py_slice :: "'a list \<Rightarrow> int option \<Rightarrow> int option \<Rightarrow> 'a list" where
  "py_slice s start stop =
     (let lo = (case start of None \<Rightarrow> 0 | Some i \<Rightarrow> norm_index (length s) i);
          hi = (case stop of None \<Rightarrow> length s | Some j \<Rightarrow> norm_index (length s) j)
      in take (hi - lo) (drop lo s))"

section \<open>Address (emulator/address.py)\<close>

record Address =
  address :: string
  offset_len :: int
  index_len :: int
  tag_len :: int

definition get_binary :: "nat \<Rightarrow> string" where
  "get_binary a =
     (let binary = bin_digits a
      in replicate (32 - length binary) CHR ''0'' @ binary)"

definition get_index_len :: "nat \<Rightarrow> nat \<Rightarrow> error + int" where
  "get_index_len nsets entries =
     (if nsets = 1 then py_log2 entries
      else if nsets = entries then Inr 0
      else py_log2 nsets)"

definition Address_init :: "nat \<Rightarrow> nat \<Rightarrow> nat \<Rightarrow> nat \<Rightarrow> error + Address" where
  "Address_init a block_size entries nsets =
     (case py_log2 block_size of
        Inl e \<Rightarrow> Inl e
      | Inr ol \<Rightarrow>
          (case get_index_len nsets entries of
             Inl e \<Rightarrow> Inl e
           | Inr il \<Rightarrow>
               Inr \<lparr>address = get_binary a, offset_len = ol, index_len = il,
                    tag_len = 32 - ol - il\<rparr>))"

definition get_tag :: "Address \<Rightarrow> string" where
  "get_tag a = py_slice (address a) None (Some (tag_len a))"

definition get_index :: "Address \<Rightarrow> string" where
  "get_index a = py_slice (address a) (Some (tag_len a)) (Some (tag_len a + index_len a))"

definition get_offset :: "Address \<Rightarrow> string" where
  "get_offset a = py_slice (address a) (Some (- offset_len a)) None"

section \<open>Block (emulator/block.py) and the object store\<close>

text \<open>
  A word of a block: \<open>NaN\<close> is numpy's \<open>nan\<close>, the filler of a fresh block;
  \<open>Num\<close> is a stored number (the conversion to a 64-bit float is not modelled).
\<close>

datatype word = NaN | Num int

record Block =
  data :: "word list"
  tag :: "string option"

definition Block_init :: "nat \<Rightarrow> Block" where
  "Block_init sz = \<lparr>data = replicate sz NaN, tag = None\<rparr>"

text \<open>
  Blocks are Python objects: the cache's rows and the RAM's rows hold references to them,
  and \<open>Block.set_val\<close> mutates the object in place. The store maps a reference to the
  object's current value; \<open>alloc_block\<close> is the evaluation of \<open>Block(size)\<close>.
\<close>

type_synonym ref = nat

record heap =
  objs :: "ref \<Rightarrow> Block"
  next_ref :: ref

definition empty_heap :: heap where
  "empty_heap = \<lparr>objs = (\<lambda>_. Block_init 0), next_ref = 0\<rparr>"

definition alloc_block :: "nat \<Rightarrow> heap \<Rightarrow> ref \<times> heap" where
  "alloc_block sz h =
     (next_ref h, h\<lparr>objs := (objs h)(next_ref h := Block_init sz), next_ref := Suc (next_ref h)\<rparr>)"

text \<open>
  \<open>Block.set_val(val, loc, tag)\<close>: the tag is assigned first, then
  \<open>self.data[loc] = val\<close> raises IndexError when \<open>loc\<close> is out of range.
\<close>

definition Block_set_val :: "ref \<Rightarrow> word \<Rightarrow> nat \<Rightarrow> string \<Rightarrow> heap \<Rightarrow> (error + unit) \<times> heap" where
  "Block_set_val r val loc tg h =
     (let b = (objs h r)\<lparr>tag := Some tg\<rparr>
      in if loc < length (data b)
         then (Inr (), h\<lparr>objs := (objs h)(r := b\<lparr>data := (data b)[loc := val]\<rparr>)\<rparr>)
         else (Inl IndexError, h\<lparr>objs := (objs h)(r := b)\<rparr>))"

text \<open>\<open>block.data[offset]\<close> on a variable that may hold \<open>None\<close>.\<close>

definition read_word :: "heap \<Rightarrow> ref option \<Rightarrow> nat \<Rightarrow> error + word" where
  "read_word h block offset =
     (case block of
        None \<Rightarrow> Inl AttributeError
      | Some r \<Rightarrow>
          if offset < length (data (objs h r)) then Inr (data (objs h r) ! offset)
          else Inl IndexError)"

section \<open>RAM (emulator/ram.py)\<close>

record RAM =
  ram_blocks :: "(bool \<times> ref) list"

definition RAM_init :: "nat \<Rightarrow> nat \<Rightarrow> heap \<Rightarrow> RAM \<times> heap" where
  "RAM_init num_blocks bsize h =
     (case alloc_block bsize h of
        (r, h1) \<Rightarrow> (\<lparr>ram_blocks = replicate num_blocks (False, r)\<rparr>, h1))"

definition RAM_get_block :: "RAM \<Rightarrow> string \<Rightarrow> string \<Rightarrow> error + ref option" where
  "RAM_get_block ram tg ix =
     (case py_int2 (tg @ ix) of
        Inl e \<Rightarrow> Inl e
      | Inr i \<Rightarrow>
          if i < length (ram_blocks ram)
          then (case ram_blocks ram ! i of (v, block) \<Rightarrow> Inr (if v then Some block else None))
          else Inl IndexError)"

definition RAM_set_block :: "RAM \<Rightarrow> string \<Rightarrow> string \<Rightarrow> ref \<Rightarrow> error + RAM" where
  "RAM_set_block ram tg ix block =
     (case py_int2 (tg @ ix) of
        Inl e \<Rightarrow> Inl e
      | Inr i \<Rightarrow>
          if i < length (ram_blocks ram)
          then Inr (ram\<lparr>ram_blocks := (ram_blocks ram)[i := (True, block)]\<rparr>)
          else Inl IndexError)"

section \<open>Cache (emulator/cache.py)\<close>

text \<open>
  A row of \<open>Cache.blocks\<close>: valid bit, tag, Block, time in, access time. The tag and
  the Block may be \<open>None\<close>; a time is \<open>nan\<close> (here \<open>None\<close>) until the row is
  filled, and a reading of \<open>datetime.now()\<close> afterwards.
\<close>

type_synonym row = "bool \<times> string option \<times> ref option \<times> nat option \<times> nat option"

record Cache =
  block_size :: nat
  replacement :: string
  sets :: "nat list"
  blocks_per_set :: nat
  blocks :: "row list"
  read_hits :: nat
  read_misses :: nat
  write_hits :: nat
  write_misses :: nat

text \<open>
  What a call reads from outside the program: \<open>now\<close> is the first reading of
  \<open>datetime.now()\<close> in the call (in the hit branch of \<open>get_val\<close> and
  \<open>set_val\<close>, or at the start of \<open>set_block\<close>), \<open>now_replace\<close> the reading
  inside \<open>replace\<close>, and \<open>pick\<close> the draw of \<open>random.choice\<close>.
\<close>

record env =
  now :: nat
  now_replace :: nat
  pick :: nat

text \<open>The loop of \<open>_get_sets\<close>: the dictionary \<open>sets[i]\<close> is the list's entry \<open>i\<close>.\<close>

fun sets_loop :: "nat \<Rightarrow> nat \<Rightarrow> nat \<Rightarrow> nat list" where
  "sets_loop 0 bps ix = []"
| "sets_loop (Suc n) bps ix = ix # sets_loop n bps (ix + bps)"

definition get_sets :: "nat \<Rightarrow> nat \<Rightarrow> error + (nat \<times> nat list)" where
  "get_sets num_sets num_blocks =
     (if num_sets = 0 then Inl ZeroDivisionError
      else Inr (num_blocks div num_sets, sets_loop num_sets (num_blocks div num_sets) 0))"

definition Cache_init :: "nat \<Rightarrow> nat \<Rightarrow> nat \<Rightarrow> string \<Rightarrow> heap \<Rightarrow> error + (Cache \<times> heap)" where
  "Cache_init bsize num_sets num_blocks repl h =
     (case get_sets num_sets num_blocks of
        Inl e \<Rightarrow> Inl e
      | Inr (bps, ss) \<Rightarrow>
          (case alloc_block bsize h of
             (r, h1) \<Rightarrow>
               Inr (\<lparr>block_size = bsize, replacement = repl, sets = ss, blocks_per_set = bps,
                     blocks = replicate num_blocks (False, None, Some r, None, None),
                     read_hits = 0, read_misses = 0, write_hits = 0, write_misses = 0\<rparr>, h1)))"

text \<open>\<open>np.where(cond)[0][0]\<close> when some entry satisfies the condition.\<close>

fun first_index :: "('a \<Rightarrow> bool) \<Rightarrow> 'a list \<Rightarrow> nat option" where
  "first_index P [] = None"
| "first_index P (x # xs) = (if P x then Some 0 else map_option Suc (first_index P xs))"

text \<open>\<open>index = 0 if not index else int(index, 2)\<close>\<close>

definition index_of :: "Address \<Rightarrow> error + nat" where
  "index_of a = (if get_index a = [] then Inr 0 else py_int2 (get_index a))"

text \<open>
  \<open>self.blocks[start:end]\<close> is \<open>drop start (take stop (blocks c))\<close>; the column
  access \<open>set[:, 0]\<close> raises IndexError on the one-dimensional array of a cache built
  with no blocks.
\<close>

definition get_block :: "Cache \<Rightarrow> Address \<Rightarrow> error + (nat option \<times> row)" where
  "get_block c a =
     (case index_of a of
        Inl e \<Rightarrow> Inl e
      | Inr index \<Rightarrow>
          if length (sets c) = 1 then
            (if index < length (blocks c) then Inr (Some index, blocks c ! index)
             else Inl IndexError)
          else if index < length (sets c) then
            (let start = sets c ! index;
                 stop = start + blocks_per_set c;
                 ways = drop start (take stop (blocks c))
             in if blocks c = [] then Inl IndexError
                else (case first_index (\<lambda>(v, tg, _). v \<and> tg = Some (get_tag a)) ways of
                        Some ix \<Rightarrow> Inr (Some (ix + start), ways ! ix)
                      | None \<Rightarrow> Inr (None, (False, None, None, None, None))))
          else Inl KeyError)"

text \<open>
  \<open>np.argmin\<close> on a column of times: the first position of the least entry. Comparing
  a \<open>nan\<close> with a datetime raises TypeError; an empty column raises ValueError.
\<close>

fun time_lt :: "nat option \<Rightarrow> nat option \<Rightarrow> error + bool" where
  "time_lt (Some a) (Some b) = Inr (a < b)"
| "time_lt None None = Inr False"
| "time_lt _ _ = Inl TypeError"

fun argmin_loop :: "nat \<Rightarrow> nat option \<Rightarrow> nat \<Rightarrow> nat option list \<Rightarrow> error + nat" where
  "argmin_loop best bv i [] = Inr best"
| "argmin_loop best bv i (x # xs) =
     (case time_lt x bv of
        Inl e \<Rightarrow> Inl e
      | Inr lt \<Rightarrow> if lt then argmin_loop i x (Suc i) xs else argmin_loop best bv (Suc i) xs)"

definition np_argmin :: "nat option list \<Rightarrow> error + nat" where
  "np_argmin ts = (case ts of [] \<Rightarrow> Inl ValueError | x # xs \<Rightarrow> argmin_loop 0 x 1 xs)"

text \<open>
  \<open>self.blocks[ix] = row\<close>. An integer out of range raises IndexError; \<open>ix = None\<close>
  (which \<open>get_block\<close> returns only together with an invalid row) is numpy's new axis,
  and the assignment then fills every row.
\<close>

definition write_row :: "Cache \<Rightarrow> nat option \<Rightarrow> row \<Rightarrow> error + Cache" where
  "write_row c ix r =
     (case ix of
        None \<Rightarrow> Inr (c\<lparr>blocks := map (\<lambda>_. r) (blocks c)\<rparr>)
      | Some i \<Rightarrow>
          if i < length (blocks c) then Inr (c\<lparr>blocks := (blocks c)[i := r]\<rparr>)
          else Inl IndexError)"

definition replace :: "env \<Rightarrow> Cache \<Rightarrow> string \<Rightarrow> nat \<Rightarrow> ref option \<Rightarrow> error + Cache" where
  "replace env c tg index block =
     (if index < length (sets c) then
        (let start = sets c ! index;
             stop = start + blocks_per_set c;
             ways = drop start (take stop (blocks c));
             chosen =
               (if replacement c = ''random'' then
                  (if start < stop then Inr (start + pick env mod (stop - start))
                   else Inl IndexError)
                else if replacement c = ''LRU'' then
                  (if blocks c = [] then Inl IndexError
                   else np_argmin (map (\<lambda>(_, _, _, _, t). t) ways))
                else if replacement c = ''FIFO'' then
                  (if blocks c = [] then Inl IndexError
                   else np_argmin (map (\<lambda>(_, _, _, t, _). t) ways))
                else Inl UnboundLocalError)
         in case chosen of
              Inl e \<Rightarrow> Inl e
            | Inr ix \<Rightarrow>
                write_row c (Some ix)
                  (True, Some tg, block, Some (now_replace env), Some (now_replace env)))
      else Inl KeyError)"

definition set_block :: "env \<Rightarrow> Cache \<Rightarrow> Address \<Rightarrow> ref option \<Rightarrow> error + Cache" where
  "set_block env c a block =
     (let time = now env; tg = get_tag a
      in case index_of a of
           Inl e \<Rightarrow> Inl e
         | Inr index \<Rightarrow>
             if length (sets c) = 1 then
               (if index < length (blocks c) then
                  (case blocks c ! index of
                     (valid, _, _, in_time, _) \<Rightarrow>
                       write_row c (Some index)
                         (True, Some tg, block, (if valid then in_time else Some time), Some time))
                else Inl IndexError)
             else if index < length (sets c) then
               (let start = sets c ! index;
                    stop = start + blocks_per_set c;
                    ways = drop start (take stop (blocks c))
                in if blocks c = [] then Inl IndexError
                   else (case first_index (\<lambda>(v, _). \<not> v) ways of
                           Some i \<Rightarrow>
                             write_row c (Some (start + i))
                               (True, Some tg, block, Some time, Some time)
                         | None \<Rightarrow> replace env c tg index block))
             else Inl KeyError)"

text \<open>
  \<open>get_val\<close> returns its outcome together with the cache as the call leaves it, also
  when the call raises: the counters are incremented before the later steps can fail.
  The test \<open>if block:\<close> of the miss branch reads the row that \<open>get_block\<close>
  returned, not the block fetched from RAM.
\<close>

definition get_val :: "env \<Rightarrow> Cache \<Rightarrow> Address \<Rightarrow> RAM \<Rightarrow> heap \<Rightarrow> (error + word option) \<times> Cache" where
  "get_val env c a ram h =
     (case py_int2 (get_offset a) of
        Inl e \<Rightarrow> (Inl e, c)
      | Inr offset \<Rightarrow>
          (case get_block c a of
             Inl e \<Rightarrow> (Inl e, c)
           | Inr (ix, valid, tg, block, t_in, _) \<Rightarrow>
               if valid \<and> Some (get_tag a) = tg then
                 (let c1 = c\<lparr>read_hits := read_hits c + 1\<rparr>
                  in case write_row c1 ix (True, tg, block, t_in, Some (now env)) of
                       Inl e \<Rightarrow> (Inl e, c1)
                     | Inr c2 \<Rightarrow>
                         (case read_word h block offset of
                            Inl e \<Rightarrow> (Inl e, c2)
                          | Inr w \<Rightarrow> (Inr (Some w), c2)))
               else
                 (let c1 = c\<lparr>read_misses := read_misses c + 1\<rparr>
                  in case RAM_get_block ram (get_tag a) (get_index a) of
                       Inl e \<Rightarrow> (Inl e, c1)
                     | Inr new_block \<Rightarrow>
                         if block \<noteq> None then
                           (case set_block env c1 a new_block of
                              Inl e \<Rightarrow> (Inl e, c1)
                            | Inr c2 \<Rightarrow>
                                (case read_word h new_block offset of
                                   Inl e \<Rightarrow> (Inl e, c2)
                                 | Inr w \<Rightarrow> (Inr (Some w), c2)))
                         else (Inr None, c1))))"

text \<open>
  The block a write miss ends with: the RAM's own block, mutated in place, when the RAM
  holds one with the address's tag; otherwise a new block, written and stored into RAM.
\<close>

definition miss_block :: "Cache \<Rightarrow> Address \<Rightarrow> word \<Rightarrow> nat \<Rightarrow> ref option \<Rightarrow> RAM \<Rightarrow> heap \<Rightarrow> (error + ref) \<times> RAM \<times> heap" where
  "miss_block c a val offset found ram h =
     (if (case found of None \<Rightarrow> False | Some r \<Rightarrow> tag (objs h r) = Some (get_tag a)) then
        (case Block_set_val (the found) val offset (get_tag a) h of
           (Inl e, h1) \<Rightarrow> (Inl e, ram, h1)
         | (Inr _, h1) \<Rightarrow> (Inr (the found), ram, h1))
      else
        (case alloc_block (block_size c) h of
           (r, h1) \<Rightarrow>
             (case Block_set_val r val offset (get_tag a) h1 of
                (Inl e, h2) \<Rightarrow> (Inl e, ram, h2)
              | (Inr _, h2) \<Rightarrow>
                  (case RAM_set_block ram (get_tag a) (get_index a) r of
                     Inl e \<Rightarrow> (Inl e, ram, h2)
                   | Inr ram1 \<Rightarrow> (Inr r, ram1, h2)))))"

definition set_val :: "env \<Rightarrow> Cache \<Rightarrow> Address \<Rightarrow> word \<Rightarrow> RAM \<Rightarrow> heap \<Rightarrow> (error + unit) \<times> Cache \<times> RAM \<times> heap" where
  "set_val env c a val ram h =
     (case py_int2 (get_offset a) of
        Inl e \<Rightarrow> (Inl e, c, ram, h)
      | Inr offset \<Rightarrow>
          (case get_block c a of
             Inl e \<Rightarrow> (Inl e, c, ram, h)
           | Inr (ix, valid, tg, block, t_in, _) \<Rightarrow>
               if valid \<and> Some (get_tag a) = tg then
                 (let c1 = c\<lparr>write_hits := write_hits c + 1\<rparr>
                  in case block of
                       None \<Rightarrow> (Inl AttributeError, c1, ram, h)
                     | Some r \<Rightarrow>
                         (case Block_set_val r val offset (get_tag a) h of
                            (Inl e, h1) \<Rightarrow> (Inl e, c1, ram, h1)
                          | (Inr _, h1) \<Rightarrow>
                              (case write_row c1 ix (True, tg, block, t_in, Some (now env)) of
                                 Inl e \<Rightarrow> (Inl e, c1, ram, h1)
                               | Inr c2 \<Rightarrow>
                                   (case RAM_set_block ram (get_tag a) (get_index a) r of
                                      Inl e \<Rightarrow> (Inl e, c2, ram, h1)
                                    | Inr ram1 \<Rightarrow> (Inr (), c2, ram1, h1)))))
               else
                 (let c1 = c\<lparr>write_misses := write_misses c + 1\<rparr>
                  in case RAM_get_block ram (get_tag a) (get_index a) of
                       Inl e \<Rightarrow> (Inl e, c1, ram, h)
                     | Inr found \<Rightarrow>
                         (case miss_block c1 a val offset found ram h of
                            (Inl e, ram1, h1) \<Rightarrow> (Inl e, c1, ram1, h1)
                          | (Inr r, ram1, h1) \<Rightarrow>
                              (case set_block env c1 a (Some r) of
                                 Inl e \<Rightarrow> (Inl e, c1, ram1, h1)
                               | Inr c2 \<Rightarrow> (Inr (), c2, ram1, h1))))))"

section \<open>CPU (emulator/cpu.py)\<close>

record CPU =
  cpu_cache :: Cache
  cpu_ram :: RAM
  instructions :: nat

definition CPU_init :: "nat \<Rightarrow> nat \<Rightarrow> nat \<Rightarrow> nat \<Rightarrow> string \<Rightarrow> heap \<Rightarrow> error + (CPU \<times> heap)" where
  "CPU_init bsize num_sets num_blocks_cache num_blocks_ram repl h =
     (case Cache_init bsize num_sets num_blocks_cache repl h of
        Inl e \<Rightarrow> Inl e
      | Inr (c, h1) \<Rightarrow>
          (case RAM_init num_blocks_ram bsize h1 of
             (ram, h2) \<Rightarrow> Inr (\<lparr>cpu_cache = c, cpu_ram = ram, instructions = 0\<rparr>, h2)))"

definition load :: "env \<Rightarrow> CPU \<Rightarrow> nat \<Rightarrow> heap \<Rightarrow> (error + word option) \<times> CPU" where
  "load env cpu raw h =
     (case Address_init raw (block_size (cpu_cache cpu)) (length (blocks (cpu_cache cpu)))
             (length (sets (cpu_cache cpu))) of
        Inl e \<Rightarrow> (Inl e, cpu)
      | Inr a \<Rightarrow>
          (case get_val env (cpu_cache cpu) a (cpu_ram cpu) h of
             (res, c1) \<Rightarrow> (res, cpu\<lparr>cpu_cache := c1, instructions := instructions cpu + 1\<rparr>)))"

definition store :: "env \<Rightarrow> CPU \<Rightarrow> nat \<Rightarrow> word \<Rightarrow> heap \<Rightarrow> (error + unit) \<times> CPU \<times> heap" where
  "store env cpu raw val h =
     (case Address_init raw (block_size (cpu_cache cpu)) (length (blocks (cpu_cache cpu)))
             (length (sets (cpu_cache cpu))) of
        Inl e \<Rightarrow> (Inl e, cpu, h)
      | Inr a \<Rightarrow>
          (case set_val env (cpu_cache cpu) a val (cpu_ram cpu) h of
             (res, c1, ram1, h1) \<Rightarrow>
               (res, cpu\<lparr>cpu_cache := c1, cpu_ram := ram1, instructions := instructions cpu + 1\<rparr>, h1)))"

text \<open>
  A run of accesses: every call acts on the state the call before it left (a call that
  raises leaves the state it had reached; a driver that lets the exception through
  performs a prefix of the run).
\<close>

datatype access = Load nat | Store nat word

fun run :: "(env \<times> access) list \<Rightarrow> CPU \<Rightarrow> heap \<Rightarrow> CPU \<times> heap" where
  "run [] cpu h = (cpu, h)"
| "run ((env, Load raw) # xs) cpu h = run xs (snd (load env cpu raw h)) h"
| "run ((env, Store raw val) # xs) cpu h =
     (case store env cpu raw val h of (_, cpu1, h1) \<Rightarrow> run xs cpu1 h1)"

text \<open>
  The condition both \<open>get_val\<close> and \<open>set_val\<close> test after \<open>get_block\<close>:
  the row is valid and carries the address's tag.
\<close>

definition is_hit :: "Cache \<Rightarrow> Address \<Rightarrow> bool" where
  "is_hit c a =
     (case get_block c a of
        Inl e \<Rightarrow> False
      | Inr (ix, valid, tg, rest) \<Rightarrow> valid \<and> Some (get_tag a) = tg)"

definition cpu_hit :: "CPU \<Rightarrow> nat \<Rightarrow> bool" where
  "cpu_hit cpu raw =
     (case Address_init raw (block_size (cpu_cache cpu)) (length (blocks (cpu_cache cpu)))
             (length (sets (cpu_cache cpu))) of
        Inl e \<Rightarrow> False
      | Inr a \<Rightarrow> is_hit (cpu_cache cpu) a)"

text \<open>
  The numbers of loads and of stores of a run, and the numbers of its loads and of its
  stores for which the cache's own lookup (\<open>get_block\<close>, in the state the run has
  reached) finds a valid row with the address's tag.
\<close>

fun num_loads :: "(env \<times> access) list \<Rightarrow> nat" where
  "num_loads [] = 0"
| "num_loads ((env, Load raw) # xs) = Suc (num_loads xs)"
| "num_loads ((env, Store raw val) # xs) = num_loads xs"

fun num_stores :: "(env \<times> access) list \<Rightarrow> nat" where
  "num_stores [] = 0"
| "num_stores ((env, Load raw) # xs) = num_stores xs"
| "num_stores ((env, Store raw val) # xs) = Suc (num_stores xs)"

fun lookup_hits :: "(env \<times> access) list \<Rightarrow> CPU \<Rightarrow> heap \<Rightarrow> nat \<times> nat" where
  "lookup_hits [] cpu h = (0, 0)"
| "lookup_hits ((env, Load raw) # xs) cpu h =
     (case lookup_hits xs (snd (load env cpu raw h)) h of
        (r, w) \<Rightarrow> ((if cpu_hit cpu raw then 1 else 0) + r, w))"
| "lookup_hits ((env, Store raw val) # xs) cpu h =
     (case store env cpu raw val h of
        (_, cpu1, h1) \<Rightarrow>
          (case lookup_hits xs cpu1 h1 of
             (r, w) \<Rightarrow> (r, (if cpu_hit cpu raw then 1 else 0) + w)))"

section \<open>Reporting (cache-sim.py)\<close>



section \<open>Properties of the address decoder\<close>

lemma ilog2_power [simp]: "ilog2 (2 ^ k) = k"
proof (induction k)
  case 0
  show ?case by (simp add: ilog2.simps)
next
  case (Suc k)
  have "\<not> (2::nat) ^ Suc k < 2" by simp
  then have "ilog2 (2 ^ Suc k) = Suc (ilog2 ((2 ^ Suc k) div 2))"
    by (subst ilog2.simps) (simp only: if_False)
  then show ?case using Suc by simp
qed

lemma length_bin_digits: "0 < n \<Longrightarrow> length (bin_digits n) = Suc (ilog2 n)"
proof (induction n rule: bin_digits.induct)
  case (1 n)
  show ?case
  proof (cases "n < 2")
    case True
    with 1 show ?thesis by (simp add: bin_digits.simps ilog2.simps)
  next
    case False
    then have "0 < n div 2" by simp
    with 1 False have "length (bin_digits (n div 2)) = Suc (ilog2 (n div 2))" by simp
    with False show ?thesis
      by (subst bin_digits.simps, subst ilog2.simps) simp
  qed
qed

lemma ilog2_less: "0 < n \<Longrightarrow> n < 2 ^ k \<Longrightarrow> ilog2 n < k"
proof (induction n arbitrary: k rule: ilog2.induct)
  case (1 n)
  show ?case
  proof (cases "n < 2")
    case True
    from 1(3) True 1(2) have "k \<noteq> 0" by (cases k) auto
    with True show ?thesis by (simp add: ilog2.simps)
  next
    case False
    from 1(3) False obtain j where k: "k = Suc j" by (cases k) auto
    from False have pos: "0 < n div 2" by simp
    from 1(3) k have "n div 2 < 2 ^ j" by simp
    with 1(1) False pos have "ilog2 (n div 2) < j" by simp
    with False k show ?thesis by (subst ilog2.simps) simp
  qed
qed

lemma length_bin_digits_le: "n < 2 ^ k \<Longrightarrow> 0 < k \<Longrightarrow> length (bin_digits n) \<le> k"
proof (cases "n = 0")
  case True
  assume "0 < k"
  with True show ?thesis by (simp add: bin_digits.simps)
next
  case False
  assume "n < 2 ^ k"
  with False have "ilog2 n < k" by (simp add: ilog2_less)
  with False show ?thesis by (simp add: length_bin_digits)
qed

lemma length_get_binary: "a < 2 ^ 32 \<Longrightarrow> length (get_binary a) = 32"
  using length_bin_digits_le [of a 32] by (simp add: get_binary_def Let_def)

lemma split_three:
  assumes "t + i + ol = length s" and "0 < ol"
  shows "py_slice s None (Some (int t)) @ py_slice s (Some (int t)) (Some (int t + int i))
           @ py_slice s (Some (- int ol)) None = s"
proof -
  have a: "py_slice s None (Some (int t)) = take t s"
    using assms by (simp add: py_slice_def norm_index_def)
  have b: "py_slice s (Some (int t)) (Some (int t + int i)) = take i (drop t s)"
    using assms by (simp add: py_slice_def norm_index_def nat_add_distrib min_def)
  have "nat (int (length s) - int ol) = t + i"
    using assms by linarith
  then have c: "py_slice s (Some (- int ol)) None = drop (t + i) s"
    using assms by (simp add: py_slice_def norm_index_def)
  have "take t s @ take i (drop t s) @ drop (t + i) s = s"
    by (metis append_take_drop_id drop_drop add.commute)
  with a b c show ?thesis by simp
qed

text \<open>Evaluation of list operations at numerals.\<close>

lemma replicate_numeral [simp]: "replicate (numeral v) x = x # replicate (numeral v - 1) x"
  by (simp add: numeral_eq_Suc)

lemma list_update_Cons_numeral [simp]:
  "(x # xs)[numeral v := y] = x # xs[numeral v - 1 := y]"
  by (simp add: numeral_eq_Suc)

lemma py_log2_power: "py_log2 (2 ^ k) = Inr (int k)"
  by (simp add: py_log2_def)

lemma get_index_len_power:
  assumes "entries = 2 ^ n" and "nsets = 2 ^ s"
  shows "get_index_len nsets entries =
           Inr (int (if nsets = 1 then n else if nsets = entries then 0 else s))"
  using assms by (simp add: get_index_len_def py_log2_power)

lemma get_binary_13: "get_binary 13 = ''00000000000000000000000000001101''"
  by (simp add: get_binary_def bin_digits.simps)

lemma py_log2_65536: "py_log2 65536 = Inr 16"
  using ilog2_power [of 16] by (simp add: py_log2_def)

lemma py_log2_131072: "py_log2 131072 = Inr 17"
  using ilog2_power [of 17] by (simp add: py_log2_def)

lemma Address_init_wide:
  "Address_init 13 65536 131072 1 =
     Inr \<lparr>address = ''00000000000000000000000000001101'', offset_len = 16,
          index_len = 17, tag_len = - 1\<rparr>"
  by (simp add: Address_init_def get_index_len_def py_log2_65536 py_log2_131072 get_binary_13)

text \<open>
  C4, as stated, fails: with blocks of \<open>2 ^ 16\<close> words and a direct-mapped cache of
  \<open>2 ^ 17\<close> blocks (all powers of two, one set dividing the blocks, the address
  below \<open>2 ^ 32\<close>) the offset and index take 33 bits, the tag length is \<open>- 1\<close>, and
  the three slices together have 47 characters instead of the address's 32.
\<close>

theorem address_partition_counterexample:
  "(65536::nat) = 2 ^ 16 \<and> (131072::nat) = 2 ^ 17 \<and> (1::nat) = 2 ^ 0 \<and> (2::nat) \<le> 65536
     \<and> (1::nat) dvd 131072 \<and> (13::nat) < 2 ^ 32
     \<and> (case Address_init 13 65536 131072 1 of
           Inl e \<Rightarrow> False
         | Inr a \<Rightarrow> address a = get_binary 13
                   \<and> length (address a) = 32
                   \<and> offset_len a + index_len a + tag_len a = 32
                   \<and> length (get_tag a @ get_index a @ get_offset a) = 47
                   \<and> get_tag a @ get_index a @ get_offset a \<noteq> address a)"
  unfolding Address_init_wide get_binary_13
  by (simp add: get_tag_def get_index_def get_offset_def py_slice_def norm_index_def)

text \<open>
  C4 (amended): for block size, number of cache blocks and number of sets that are powers
  of two, with a block size of at least 2, the sets dividing the blocks, and the offset
  and index bits together not exceeding 32, and for every raw address below \<open>2 ^ 32\<close>:
  the address is built, its binary form has 32 characters, the three field widths sum to
  32, and tag, index and offset concatenated give back the 32-character binary form.
\<close>

theorem address_partition:
  assumes bs: "bsize = 2 ^ b" and b: "1 \<le> b"
    and en: "entries = 2 ^ n" and ns: "nsets = 2 ^ s"
    and dv: "nsets dvd entries" and raw: "raw < 2 ^ 32"
    and fit: "b + (if nsets = 1 then n else if nsets = entries then 0 else s) \<le> 32"
  shows "\<exists>a. Address_init raw bsize entries nsets = Inr a
             \<and> address a = get_binary raw \<and> length (address a) = 32
             \<and> offset_len a + index_len a + tag_len a = 32
             \<and> get_tag a @ get_index a @ get_offset a = address a"
proof -
  define i where "i = (if nsets = 1 then n else if nsets = entries then 0 else s)"
  define a where "a = \<lparr>address = get_binary raw, offset_len = int b, index_len = int i,
                        tag_len = 32 - int b - int i\<rparr>"
  have init: "Address_init raw bsize entries nsets = Inr a"
    using get_index_len_power [OF en ns]
    by (simp add: Address_init_def bs py_log2_power a_def i_def)
  have len: "length (get_binary raw) = 32"
    using raw by (rule length_get_binary)
  from fit have fit': "b + i \<le> 32" by (simp add: i_def)
  then have t: "32 - int b - int i = int (32 - b - i)" by simp
  have "(32 - b - i) + i + b = length (get_binary raw)"
    using fit' len by simp
  from split_three [OF this] b
  have "get_tag a @ get_index a @ get_offset a = address a"
    by (simp add: get_tag_def get_index_def get_offset_def a_def t)
  moreover have "offset_len a + index_len a + tag_len a = 32"
    by (simp add: a_def)
  ultimately show ?thesis
    using init len by (simp add: a_def)
qed

theorem address_partition_witness:
  "\<exists>a. Address_init 13 8 4 2 = Inr a
       \<and> address a = get_binary 13 \<and> length (address a) = 32
       \<and> offset_len a + index_len a + tag_len a = 32
       \<and> get_tag a @ get_index a @ get_offset a = address a"
  using address_partition [of 8 3 4 2 2 1 13] by simp

section \<open>Properties of the reporting step\<close>



section \<open>Properties of the RAM\<close>

lemma RAM_init_length: "length (ram_blocks (fst (RAM_init num_blocks bsize h))) = num_blocks"
  by (simp add: RAM_init_def alloc_block_def)

lemma RAM_set_block_length:
  "RAM_set_block ram tg ix block = Inr ram1 \<Longrightarrow> length (ram_blocks ram1) = length (ram_blocks ram)"
  by (auto simp: RAM_set_block_def split: sum.splits if_splits)

text \<open>
  C7, as stated, fails: the RAM holds the number of blocks its constructor was given, not
  one slot for every tag and index. With a RAM of 2 blocks, the tag and index of address
  16 (blocks of 8 words, 4 direct-mapped cache blocks) have the numeric value 2, and
  \<open>set_block\<close> raises IndexError.
\<close>

theorem RAM_set_block_beyond_capacity_counterexample:
  "(case Address_init 16 8 4 1 of
      Inl e \<Rightarrow> False
    | Inr a \<Rightarrow>
        py_int2 (get_tag a @ get_index a) = Inr 2
        \<and> length (ram_blocks (fst (RAM_init 2 8 empty_heap))) = 2
        \<and> RAM_set_block (fst (RAM_init 2 8 empty_heap)) (get_tag a) (get_index a) 1
            = Inl IndexError)"
  by code_simp

text \<open>
  C7 (amended): for every tag and index whose concatenation has a numeric value below
  the number of blocks of the RAM (the number fixed at its construction, which
  \<open>set_block\<close> never changes), \<open>RAM.set_block\<close> succeeds: it marks that slot valid
  and stores the block there, leaves the number of slots unchanged, and a following
  \<open>get_block\<close> of the same tag and index returns the block.
\<close>

theorem RAM_set_block_within_capacity:
  assumes "py_int2 (tg @ ix) = Inr i" and "i < length (ram_blocks ram)"
  shows "\<exists>ram1. RAM_set_block ram tg ix block = Inr ram1
           \<and> ram_blocks ram1 = (ram_blocks ram)[i := (True, block)]
           \<and> ram_blocks ram1 ! i = (True, block)
           \<and> length (ram_blocks ram1) = length (ram_blocks ram)
           \<and> RAM_get_block ram1 tg ix = Inr (Some block)"
  using assms by (simp add: RAM_set_block_def RAM_get_block_def)

theorem RAM_set_block_within_capacity_witness:
  "\<exists>ram1. RAM_set_block (fst (RAM_init 2 8 empty_heap)) ''0'' ''1'' 5 = Inr ram1
           \<and> ram_blocks ram1 = (ram_blocks (fst (RAM_init 2 8 empty_heap)))[1 := (True, 5)]
           \<and> ram_blocks ram1 ! 1 = (True, 5)
           \<and> length (ram_blocks ram1) = length (ram_blocks (fst (RAM_init 2 8 empty_heap)))
           \<and> RAM_get_block ram1 ''0'' ''1'' = Inr (Some 5)"
proof -
  have a: "py_int2 (''0'' @ ''1'') = Inr 1" by (simp add: py_int2_def)
  have b: "1 < length (ram_blocks (fst (RAM_init 2 8 empty_heap)))"
    by (simp add: RAM_init_length)
  show ?thesis using RAM_set_block_within_capacity [OF a b] .
qed

section \<open>Properties of installing a block\<close>

lemma first_index_Some:
  "first_index P xs = Some k \<Longrightarrow> k < length xs \<and> P (xs ! k)"
proof (induction xs arbitrary: k)
  case Nil
  then show ?case by simp
next
  case (Cons x xs)
  then show ?case by (auto split: if_splits)
qed

lemma nth_ways:
  "k < length (drop start (take stop bs)) \<Longrightarrow>
     drop start (take stop bs) ! k = bs ! (start + k) \<and> start + k < length bs"
  by (auto simp: min_def split: if_splits)

lemma write_row_Some:
  "write_row c (Some i) r = Inr c1 \<Longrightarrow> i < length (blocks c) \<and> c1 = c\<lparr>blocks := (blocks c)[i := r]\<rparr>"
  by (auto simp: write_row_def split: if_splits)

lemma replace_writes:
  assumes "replace env c tg index block = Inr c1"
  shows "\<exists>ix < length (blocks c).
           c1 = c\<lparr>blocks := (blocks c)[ix := (True, Some tg, block, Some (now_replace env),
                                             Some (now_replace env))]\<rparr>"
proof -
  from assms obtain ix where
    "write_row c (Some ix) (True, Some tg, block, Some (now_replace env), Some (now_replace env))
       = Inr c1"
    by (auto simp: replace_def Let_def split: if_splits sum.splits)
  from write_row_Some [OF this] show ?thesis by blast
qed

text \<open>
  C9, as stated, fails in the direct-mapped case: a store at time 1 fills slot 0, a store
  of a second tag with the same index at time 5 replaces its tag and block, and the
  slot's insertion time is still 1 while its access time is 5.
\<close>

theorem direct_mapped_keeps_time_in_counterexample:
  "(case CPU_init 8 1 4 8 ''LRU'' empty_heap of
      Inl e \<Rightarrow> False
    | Inr (cpu, h) \<Rightarrow>
        (case run [(\<lparr>now = 1, now_replace = 1, pick = 0\<rparr>, Store 0 (Num 1)),
                   (\<lparr>now = 5, now_replace = 6, pick = 0\<rparr>, Store 32 (Num 2))] cpu h of
           (cpu1, h1) \<Rightarrow>
             (case blocks (cpu_cache cpu1) ! 0 of
                (v, tg, b, t_in, t_acc) \<Rightarrow>
                  v \<and> tg = Some ''000000000000000000000000001''
                  \<and> t_in = Some 1 \<and> t_acc = Some 5)))"
  by code_simp

text \<open>
  C9 (amended): whenever \<open>set_block\<close> returns and has changed a slot that was valid,
  that slot is valid and holds the new tag and the new block, and its access time is the
  time read during the call. In an associative cache (the slot was overwritten by
  \<open>replace\<close>) the insertion time is that same reading; in a direct-mapped cache the
  insertion time of the slot's previous occupant is kept.
\<close>

theorem set_block_overwrites_valid:
  assumes ok: "set_block env c a block = Inr c1"
    and i: "i < length (blocks c)"
    and old: "blocks c ! i = (True, tg0, b0, t_in0, t_acc0)"
    and changed: "blocks c1 ! i \<noteq> blocks c ! i"
  shows "blocks c1 ! i =
           (if length (sets c) = 1
            then (True, Some (get_tag a), block, t_in0, Some (now env))
            else (True, Some (get_tag a), block, Some (now_replace env), Some (now_replace env)))"
proof -
  from ok obtain index where idx: "index_of a = Inr index"
    by (auto simp: set_block_def Let_def split: sum.splits)
  show ?thesis
  proof (cases "length (sets c) = 1")
    case True
    with ok idx obtain v x1 x2 in_time x4 where
      row: "blocks c ! index = (v, x1, x2, in_time, x4)" and
      w: "write_row c (Some index)
            (True, Some (get_tag a), block, (if v then in_time else Some (now env)), Some (now env))
          = Inr c1"
      by (auto simp: set_block_def Let_def split: if_splits prod.splits)
    from write_row_Some [OF w] have lt: "index < length (blocks c)"
      and c1: "blocks c1 = (blocks c)[index := (True, Some (get_tag a), block,
                  (if v then in_time else Some (now env)), Some (now env))]"
      by simp_all
    from changed c1 have "i = index" by (cases "i = index") auto
    with c1 lt row old True show ?thesis by simp
  next
    case False
    let ?start = "sets c ! index"
    let ?ways = "drop ?start (take (?start + blocks_per_set c) (blocks c))"
    show ?thesis
    proof (cases "first_index (\<lambda>(v, _). \<not> v) ?ways")
      case None
      with ok idx False have "replace env c (get_tag a) index block = Inr c1"
        by (auto simp: set_block_def Let_def split: if_splits)
      from replace_writes [OF this] obtain ix where lt: "ix < length (blocks c)"
        and c1: "blocks c1 = (blocks c)[ix := (True, Some (get_tag a), block,
                    Some (now_replace env), Some (now_replace env))]"
        by auto
      from changed c1 have "i = ix" by (cases "i = ix") auto
      with c1 lt False show ?thesis by simp
    next
      case (Some k)
      with ok idx False have w: "write_row c (Some (?start + k))
             (True, Some (get_tag a), block, Some (now env), Some (now env)) = Inr c1"
        by (auto simp: set_block_def Let_def split: if_splits)
      from write_row_Some [OF w]
      have c1: "blocks c1 = (blocks c)[?start + k := (True, Some (get_tag a), block,
                    Some (now env), Some (now env))]"
        by simp
      from changed c1 have eq: "i = ?start + k" by (cases "i = ?start + k") auto
      from first_index_Some [OF Some] have k: "k < length ?ways"
        and inv: "(\<lambda>(v, _). \<not> v) (?ways ! k)" by simp_all
      from nth_ways [OF k] have "?ways ! k = blocks c ! (?start + k)" by simp
      with inv eq old have False by simp
      then show ?thesis ..
    qed
  qed
qed

text \<open>
  The witness: a cache of two sets of one way each whose slot 0 was filled by a store at
  time 1; installing a block for a second tag at times 5 (in \<open>set_block\<close>) and 6 (in
  \<open>replace\<close>) overwrites slot 0 with both times equal to 6.
\<close>

theorem set_block_overwrites_valid_witness:
  "(let cpu = fst (projr (CPU_init 8 2 2 8 ''LRU'' empty_heap));
        h = snd (projr (CPU_init 8 2 2 8 ''LRU'' empty_heap));
        c = cpu_cache (fst (run [(\<lparr>now = 1, now_replace = 1, pick = 0\<rparr>, Store 0 (Num 1))] cpu h));
        a = projr (Address_init 8 8 2 2);
        env = \<lparr>now = 5, now_replace = 6, pick = 0\<rparr>;
        c1 = projr (set_block env c a (Some 7))
    in set_block env c a (Some 7) = Inr c1
       \<and> blocks c ! 0 = (True, Some ''00000000000000000000000000000'', Some 2, Some 1, Some 1)
       \<and> blocks c1 ! 0 = (True, Some ''00000000000000000000000000001'', Some 7, Some 6, Some 6))"
proof -
  define cpu where "cpu = fst (projr (CPU_init 8 2 2 8 ''LRU'' empty_heap))"
  define h where "h = snd (projr (CPU_init 8 2 2 8 ''LRU'' empty_heap))"
  define c where
    "c = cpu_cache (fst (run [(\<lparr>now = 1, now_replace = 1, pick = 0\<rparr>, Store 0 (Num 1))] cpu h))"
  define a where "a = projr (Address_init 8 8 2 2)"
  define env where "env = \<lparr>now = 5, now_replace = 6, pick = 0::nat\<rparr>"
  define c1 where "c1 = projr (set_block env c a (Some 7))"
  note defs = cpu_def h_def c_def a_def env_def c1_def
  have h1: "set_block env c a (Some 7) = Inr c1"
    unfolding defs by code_simp
  have h2: "0 < length (blocks c)"
    unfolding defs by code_simp
  have h3: "blocks c ! 0 = (True, Some ''00000000000000000000000000000'', Some 2, Some 1, Some 1)"
    unfolding defs by code_simp
  have h4: "blocks c1 ! 0 \<noteq> blocks c ! 0"
    unfolding defs by code_simp
  have h5: "length (sets c) \<noteq> 1"
    unfolding defs by code_simp
  have h6: "get_tag a = ''00000000000000000000000000001''"
    unfolding defs by code_simp
  have "blocks c1 ! 0 = (True, Some ''00000000000000000000000000001'', Some 7, Some 6, Some 6)"
    using set_block_overwrites_valid [OF h1 h2 h3 h4] h5 h6 by (simp add: env_def)
  with h1 h3 show ?thesis
    unfolding Let_def cpu_def [symmetric] h_def [symmetric] c_def [symmetric]
      a_def [symmetric] env_def [symmetric] c1_def [symmetric]
    by blast
qed

section \<open>Reads that miss\<close>

text \<open>
  C1: in an associative cache a read that misses never installs the block and returns no
  value, although the RAM holds the block. Here a store through one cache of two sets
  of two ways leaves the value 7 in the RAM's block for address 8; a read of address 8
  through a second, empty cache with the same geometry returns \<open>None\<close> and changes
  nothing in that cache but the miss counter: \<open>get_block\<close> returns a row without a
  block on an associative miss, and \<open>get_val\<close> tests that row's block instead of the
  fetched one.
\<close>

theorem read_miss_not_installed:
  "(case CPU_init 8 2 4 8 ''LRU'' empty_heap of
      Inl e \<Rightarrow> False
    | Inr (cpu, h) \<Rightarrow>
        (case store \<lparr>now = 1, now_replace = 1, pick = 0\<rparr> cpu 8 (Num 7) h of
           (res, cpu1, h1) \<Rightarrow>
             (case (Cache_init 8 2 4 ''LRU'' h1, Address_init 8 8 4 2) of
                (Inr (c, h2), Inr a) \<Rightarrow>
                  res = Inr ()
                  \<and> (case RAM_get_block (cpu_ram cpu1) (get_tag a) (get_index a) of
                        Inr (Some r) \<Rightarrow> data (objs h2 r) ! 0 = Num 7
                      | _ \<Rightarrow> False)
                  \<and> get_val \<lparr>now = 2, now_replace = 2, pick = 0\<rparr> c a (cpu_ram cpu1) h2
                      = (Inr None, c\<lparr>read_misses := 1\<rparr>)
              | _ \<Rightarrow> False)))"
  by code_simp

text \<open>
  C2: the store writes through (the RAM's slot 1 is valid and its block holds 7 at
  offset 1), but the cold re-read of the same address through a freshly constructed
  cache of two sets of one way returns \<open>None\<close>, not the written value.
\<close>

theorem cold_reread_returns_none:
  "(case CPU_init 8 2 2 8 ''FIFO'' empty_heap of
      Inl e \<Rightarrow> False
    | Inr (cpu, h) \<Rightarrow>
        (case store \<lparr>now = 1, now_replace = 1, pick = 0\<rparr> cpu 9 (Num 7) h of
           (res, cpu1, h1) \<Rightarrow>
             (case Cache_init 8 2 2 ''FIFO'' h1 of
                Inl e \<Rightarrow> False
              | Inr (fresh, h2) \<Rightarrow>
                  res = Inr ()
                  \<and> (case ram_blocks (cpu_ram cpu1) ! 1 of
                        (v, r) \<Rightarrow> v \<and> data (objs h2 r) ! 1 = Num 7)
                  \<and> fst (load \<lparr>now = 2, now_replace = 2, pick = 0\<rparr>
                            (cpu1\<lparr>cpu_cache := fresh\<rparr>) 9 h2) = Inr None)))"
  by code_simp

text \<open>
  C3: in a direct-mapped cache the read of an address that was never written raises
  AttributeError: the row's initial block passes the test \<open>if block:\<close>, the absent
  block fetched from RAM is installed, and \<open>new_block.data\<close> is read on \<open>None\<close>.
\<close>

theorem read_unwritten_direct_mapped_raises:
  "(case CPU_init 8 1 4 8 ''LRU'' empty_heap of
      Inl e \<Rightarrow> False
    | Inr (cpu, h) \<Rightarrow>
        fst (load \<lparr>now = 1, now_replace = 1, pick = 0\<rparr> cpu 0 h) = Inl AttributeError)"
  by code_simp

section \<open>Eviction\<close>

text \<open>
  C5: under LRU and under FIFO, \<open>replace\<close> uses the position of the oldest way within
  the set as a position in the whole cache. Three stores to set 1 (slots 2 and 3) of a
  cache of two sets of two ways: the third finds the set full, the oldest way is way 0
  of the set (slot 2), and the block is written to slot 0, which belongs to set 0; slots
  2 and 3 keep their contents.
\<close>

theorem eviction_writes_outside_set:
  "list_all (\<lambda>policy.
     (case CPU_init 8 2 4 8 policy empty_heap of
        Inl e \<Rightarrow> False
      | Inr (cpu, h) \<Rightarrow>
          (case run [(\<lparr>now = 1, now_replace = 1, pick = 0\<rparr>, Store 8 (Num 1)),
                     (\<lparr>now = 2, now_replace = 2, pick = 0\<rparr>, Store 24 (Num 2)),
                     (\<lparr>now = 3, now_replace = 4, pick = 0\<rparr>, Store 40 (Num 3))] cpu h of
             (cpu1, h1) \<Rightarrow>
               sets (cpu_cache cpu1) = [0, 2] \<and> blocks_per_set (cpu_cache cpu1) = 2 \<and>
               map (\<lambda>(v, tg, _, t_in, t_acc). (v, tg, t_in, t_acc)) (blocks (cpu_cache cpu1)) =
                 [(True, Some ''0000000000000000000000000010'', Some 4, Some 4),
                  (False, None, None, None),
                  (True, Some ''0000000000000000000000000000'', Some 1, Some 1),
                  (True, Some ''0000000000000000000000000001'', Some 2, Some 2)])))
     [''LRU'', ''FIFO'']"
  by code_simp

section \<open>The cache of as many sets as blocks\<close>

text \<open>
  C10: with two sets and two blocks every address has index 0 and set 0 is slot 0 alone.
  After stores of tags 0 and 1 the slot holds tag 1 and the RAM holds both blocks; a read
  of the address with tag 0 then misses, returns \<open>None\<close> and leaves every slot as it
  was: this access with a different tag replaces nothing.
\<close>

theorem fully_associative_read_no_replacement:
  "(case CPU_init 8 2 2 8 ''LRU'' empty_heap of
      Inl e \<Rightarrow> False
    | Inr (cpu, h) \<Rightarrow>
        (case run [(\<lparr>now = 1, now_replace = 1, pick = 0\<rparr>, Store 0 (Num 1)),
                   (\<lparr>now = 2, now_replace = 3, pick = 0\<rparr>, Store 8 (Num 2))] cpu h of
           (cpu1, h1) \<Rightarrow>
             (case load \<lparr>now = 4, now_replace = 5, pick = 0\<rparr> cpu1 0 h1 of
                (res, cpu2) \<Rightarrow>
                  fst (ram_blocks (cpu_ram cpu1) ! 0)
                  \<and> fst (blocks (cpu_cache cpu1) ! 0)
                  \<and> fst (snd (blocks (cpu_cache cpu1) ! 0)) = Some ''00000000000000000000000000001''
                  \<and> res = Inr None
                  \<and> blocks (cpu_cache cpu2) = blocks (cpu_cache cpu1))))"
  by code_simp

section \<open>Addresses built for a cache\<close>

lemma bin_digits_binary: "set (bin_digits n) \<subseteq> {CHR ''0'', CHR ''1''}"
proof (induction n rule: bin_digits.induct)
  case (1 n)
  show ?case
  proof (cases "n < 2")
    case True
    then show ?thesis by (subst bin_digits.simps) simp
  next
    case False
    with 1 have "set (bin_digits (n div 2)) \<subseteq> {CHR ''0'', CHR ''1''}" by simp
    with False show ?thesis by (subst bin_digits.simps) auto
  qed
qed

lemma bin_digits_nonempty: "bin_digits n \<noteq> []"
  by (subst bin_digits.simps) simp

lemma get_binary_binary: "set (get_binary raw) \<subseteq> {CHR ''0'', CHR ''1''}"
  using bin_digits_binary [of raw] by (auto simp: get_binary_def Let_def)

lemma get_binary_nonempty: "get_binary raw \<noteq> []"
  by (simp add: get_binary_def Let_def bin_digits_nonempty)

lemma set_py_slice: "set (py_slice s lo hi) \<subseteq> set s"
proof -
  have "set (take n (drop m s)) \<subseteq> set s" for n m
    by (meson set_take_subset set_drop_subset subset_trans)
  then show ?thesis by (simp add: py_slice_def Let_def)
qed

lemma bits_val_binary:
  "set s \<subseteq> {CHR ''0'', CHR ''1''} \<Longrightarrow> \<exists>v. bits_val acc s = Inr v \<and> v < (acc + 1) * 2 ^ length s"
proof (induction s arbitrary: acc)
  case Nil
  show ?case by simp
next
  case (Cons c cs)
  then have cs: "set cs \<subseteq> {CHR ''0'', CHR ''1''}" and c: "c = CHR ''0'' \<or> c = CHR ''1''"
    by auto
  from c show ?case
  proof
    assume c0: "c = CHR ''0''"
    from Cons.IH [OF cs, of "2 * acc"] obtain v where
      "bits_val (2 * acc) cs = Inr v" and "v < (2 * acc + 1) * 2 ^ length cs" by blast
    moreover have "(2 * acc + 1) * 2 ^ length cs \<le> (acc + 1) * 2 ^ length (c # cs)"
      by (simp add: algebra_simps)
    ultimately show ?thesis using c0 by auto
  next
    assume c1: "c = CHR ''1''"
    from Cons.IH [OF cs, of "2 * acc + 1"] obtain v where
      "bits_val (2 * acc + 1) cs = Inr v" and "v < (2 * acc + 1 + 1) * 2 ^ length cs" by blast
    moreover have "(2 * acc + 1 + 1) * 2 ^ length cs = (acc + 1) * 2 ^ length (c # cs)"
      by (simp add: algebra_simps)
    ultimately show ?thesis using c1 by auto
  qed
qed

lemma py_int2_binary:
  assumes "set s \<subseteq> {CHR ''0'', CHR ''1''}" and "s \<noteq> []"
  shows "\<exists>v. py_int2 s = Inr v \<and> v < 2 ^ length s"
  using bits_val_binary [OF assms(1), of 0] assms(2) by (simp add: py_int2_def)

lemma ilog2_le: "0 < n \<Longrightarrow> 2 ^ ilog2 n \<le> n"
proof (induction n rule: ilog2.induct)
  case (1 n)
  show ?case
  proof (cases "n < 2")
    case True
    with 1(2) show ?thesis by (subst ilog2.simps) simp
  next
    case False
    then have "0 < n div 2" by simp
    with 1(1) False have "2 ^ ilog2 (n div 2) \<le> n div 2" by simp
    then have "2 * 2 ^ ilog2 (n div 2) \<le> n" by simp
    with False show ?thesis by (subst ilog2.simps) simp
  qed
qed

lemma get_offset_nonempty:
  assumes "address a \<noteq> []" and "0 \<le> offset_len a"
  shows "get_offset a \<noteq> []"
proof -
  from assms(1) have "0 < length (address a)" by simp
  with assms(2) show ?thesis
    by (auto simp: get_offset_def py_slice_def norm_index_def Let_def min_def max_def)
qed

lemma norm_index_diff: "0 \<le> il \<Longrightarrow> norm_index n (t + il) - norm_index n t \<le> nat il"
  unfolding norm_index_def by (cases "t < 0"; cases "t + il < 0"; simp)

lemma length_get_index:
  assumes "0 \<le> index_len a"
  shows "length (get_index a) \<le> nat (index_len a)"
proof -
  have "length (get_index a)
          \<le> norm_index (length (address a)) (tag_len a + index_len a)
              - norm_index (length (address a)) (tag_len a)"
    by (simp add: get_index_def py_slice_def Let_def)
  also have "\<dots> \<le> nat (index_len a)"
    using assms by (rule norm_index_diff)
  finally show ?thesis .
qed

lemma Address_init_Inr:
  assumes "Address_init raw bs entries nsets = Inr a"
  shows "address a = get_binary raw" and "0 < bs" and "offset_len a = int (ilog2 bs)"
    and "index_len a =
           int (if nsets = 1 then ilog2 entries else if nsets = entries then 0 else ilog2 nsets)"
    and "nsets = 1 \<Longrightarrow> 0 < entries"
  using assms
  by (auto simp: Address_init_def get_index_len_def py_log2_def split: sum.splits if_splits)

lemma offset_ok:
  assumes "Address_init raw bs entries nsets = Inr a"
  shows "\<exists>offset. py_int2 (get_offset a) = Inr offset"
proof -
  from Address_init_Inr(1,3) [OF assms]
  have ad: "address a = get_binary raw" and ol: "0 \<le> offset_len a" by simp_all
  from ad have ne: "address a \<noteq> []" by (simp add: get_binary_nonempty)
  have "set (get_offset a) \<subseteq> set (address a)"
    unfolding get_offset_def by (rule set_py_slice)
  with ad get_binary_binary [of raw] have "set (get_offset a) \<subseteq> {CHR ''0'', CHR ''1''}"
    by auto
  from py_int2_binary [OF this get_offset_nonempty [OF ne ol]] show ?thesis by blast
qed

lemma index_of_ok:
  assumes "Address_init raw bs entries nsets = Inr a"
  shows "\<exists>index. index_of a = Inr index \<and> index < 2 ^ nat (index_len a)"
proof (cases "get_index a = []")
  case True
  then show ?thesis by (simp add: index_of_def)
next
  case False
  from Address_init_Inr(1,4) [OF assms]
  have ad: "address a = get_binary raw" and il: "0 \<le> index_len a" by simp_all
  have "set (get_index a) \<subseteq> set (address a)"
    unfolding get_index_def by (rule set_py_slice)
  with ad get_binary_binary [of raw] have "set (get_index a) \<subseteq> {CHR ''0'', CHR ''1''}"
    by auto
  from py_int2_binary [OF this False] obtain v where
    v: "py_int2 (get_index a) = Inr v" and lt: "v < 2 ^ length (get_index a)" by blast
  have "(2::nat) ^ length (get_index a) \<le> 2 ^ nat (index_len a)"
    by (rule power_increasing) (use length_get_index [OF il] in simp_all)
  with lt have "v < 2 ^ nat (index_len a)" by (rule less_le_trans)
  with v False show ?thesis by (simp add: index_of_def)
qed

lemma get_block_ok:
  assumes addr: "Address_init raw (block_size c) (length (blocks c)) (length (sets c)) = Inr a"
    and bl: "blocks c \<noteq> []" and st: "sets c \<noteq> []"
  shows "get_block c a \<noteq> Inl e"
proof -
  from index_of_ok [OF addr] obtain index where
    idx: "index_of a = Inr index" and lt: "index < 2 ^ nat (index_len a)" by blast
  note il = Address_init_Inr(4) [OF addr]
  show ?thesis
  proof (cases "length (sets c) = 1")
    case True
    with il have "nat (index_len a) = ilog2 (length (blocks c))" by simp
    moreover from bl have "2 ^ ilog2 (length (blocks c)) \<le> length (blocks c)"
      by (simp add: ilog2_le)
    ultimately have "index < length (blocks c)" using lt by simp
    with idx True show ?thesis
      by (simp add: get_block_def)
  next
    case False
    have "index < length (sets c)"
    proof (cases "length (sets c) = length (blocks c)")
      case True
      with False il lt have "index = 0" by simp
      with st show ?thesis by simp
    next
      case neq: False
      with False il have "nat (index_len a) = ilog2 (length (sets c))" by simp
      moreover from st have "2 ^ ilog2 (length (sets c)) \<le> length (sets c)"
        by (simp add: ilog2_le)
      ultimately show ?thesis using lt by simp
    qed
    with idx False bl show ?thesis
      by (simp add: get_block_def Let_def split: option.splits)
  qed
qed

section \<open>Hit and miss accounting\<close>

text \<open>Installing a block changes nothing of the cache but its rows, whose number it keeps.\<close>

lemma write_row_frame:
  "write_row c ix r = Inr c1 \<Longrightarrow> \<exists>bs. c1 = c\<lparr>blocks := bs\<rparr> \<and> length bs = length (blocks c)"
  by (auto simp: write_row_def split: option.splits if_splits)

lemma replace_frame:
  "replace env c tg index block = Inr c1 \<Longrightarrow>
     \<exists>bs. c1 = c\<lparr>blocks := bs\<rparr> \<and> length bs = length (blocks c)"
  by (drule replace_writes) auto

lemma set_block_frame:
  assumes "set_block env c a block = Inr c1"
  shows "\<exists>bs. c1 = c\<lparr>blocks := bs\<rparr> \<and> length bs = length (blocks c)"
proof -
  from assms have
    "(\<exists>ix r. write_row c ix r = Inr c1) \<or> (\<exists>index. replace env c (get_tag a) index block = Inr c1)"
    by (auto simp: set_block_def Let_def split: sum.splits if_splits prod.splits option.splits)
  then show ?thesis
    by (auto dest: write_row_frame replace_frame)
qed

lemma get_val_counters:
  assumes addr: "Address_init raw (block_size c) (length (blocks c)) (length (sets c)) = Inr a"
    and bl: "blocks c \<noteq> []" and st: "sets c \<noteq> []"
  shows "\<exists>bs. length bs = length (blocks c) \<and>
           snd (get_val env c a ram h) =
             (if is_hit c a then c\<lparr>blocks := bs, read_hits := read_hits c + 1\<rparr>
              else c\<lparr>blocks := bs, read_misses := read_misses c + 1\<rparr>)"
proof -
  from offset_ok [OF addr] obtain offset where off: "py_int2 (get_offset a) = Inr offset"
    by blast
  from get_block_ok [OF addr bl st] obtain ix valid tg block t_in t_acc where
    gb: "get_block c a = Inr (ix, valid, tg, block, t_in, t_acc)"
    by (cases "get_block c a") auto
  have hit: "is_hit c a \<longleftrightarrow> valid \<and> Some (get_tag a) = tg"
    by (simp add: is_hit_def gb)
  show ?thesis
  proof (cases "is_hit c a")
    case True
    define c1 where "c1 = c\<lparr>read_hits := read_hits c + 1\<rparr>"
    have "snd (get_val env c a ram h) = c1
          \<or> write_row c1 ix (True, tg, block, t_in, Some (now env))
              = Inr (snd (get_val env c a ram h))"
      using off gb True hit by (auto simp: get_val_def c1_def Let_def split: sum.splits)
    then show ?thesis
    proof
      assume "snd (get_val env c a ram h) = c1"
      with True have "length (blocks c) = length (blocks c) \<and>
           snd (get_val env c a ram h) =
             (if is_hit c a then c\<lparr>blocks := blocks c, read_hits := read_hits c + 1\<rparr>
              else c\<lparr>blocks := blocks c, read_misses := read_misses c + 1\<rparr>)"
        by (simp add: c1_def)
      then show ?thesis by blast
    next
      assume "write_row c1 ix (True, tg, block, t_in, Some (now env))
                = Inr (snd (get_val env c a ram h))"
      from write_row_frame [OF this] obtain bs where
        "snd (get_val env c a ram h) = c1\<lparr>blocks := bs\<rparr>" and "length bs = length (blocks c1)"
        by blast
      with True have "length bs = length (blocks c) \<and>
           snd (get_val env c a ram h) =
             (if is_hit c a then c\<lparr>blocks := bs, read_hits := read_hits c + 1\<rparr>
              else c\<lparr>blocks := bs, read_misses := read_misses c + 1\<rparr>)"
        by (simp add: c1_def)
      then show ?thesis by blast
    qed
  next
    case False
    define c1 where "c1 = c\<lparr>read_misses := read_misses c + 1\<rparr>"
    have "snd (get_val env c a ram h) = c1
          \<or> (\<exists>nb. set_block env c1 a nb = Inr (snd (get_val env c a ram h)))"
      using off gb False hit by (auto simp: get_val_def c1_def Let_def split: sum.splits)
    then show ?thesis
    proof
      assume "snd (get_val env c a ram h) = c1"
      with False have "length (blocks c) = length (blocks c) \<and>
           snd (get_val env c a ram h) =
             (if is_hit c a then c\<lparr>blocks := blocks c, read_hits := read_hits c + 1\<rparr>
              else c\<lparr>blocks := blocks c, read_misses := read_misses c + 1\<rparr>)"
        by (simp add: c1_def)
      then show ?thesis by blast
    next
      assume "\<exists>nb. set_block env c1 a nb = Inr (snd (get_val env c a ram h))"
      then obtain nb where "set_block env c1 a nb = Inr (snd (get_val env c a ram h))" ..
      from set_block_frame [OF this] obtain bs where
        "snd (get_val env c a ram h) = c1\<lparr>blocks := bs\<rparr>" and "length bs = length (blocks c1)"
        by blast
      with False have "length bs = length (blocks c) \<and>
           snd (get_val env c a ram h) =
             (if is_hit c a then c\<lparr>blocks := bs, read_hits := read_hits c + 1\<rparr>
              else c\<lparr>blocks := bs, read_misses := read_misses c + 1\<rparr>)"
        by (simp add: c1_def)
      then show ?thesis by blast
    qed
  qed
qed

lemma set_val_counters:
  assumes addr: "Address_init raw (block_size c) (length (blocks c)) (length (sets c)) = Inr a"
    and bl: "blocks c \<noteq> []" and st: "sets c \<noteq> []"
  shows "\<exists>bs. length bs = length (blocks c) \<and>
           fst (snd (set_val env c a val ram h)) =
             (if is_hit c a then c\<lparr>blocks := bs, write_hits := write_hits c + 1\<rparr>
              else c\<lparr>blocks := bs, write_misses := write_misses c + 1\<rparr>)"
proof -
  from offset_ok [OF addr] obtain offset where off: "py_int2 (get_offset a) = Inr offset"
    by blast
  from get_block_ok [OF addr bl st] obtain ix valid tg block t_in t_acc where
    gb: "get_block c a = Inr (ix, valid, tg, block, t_in, t_acc)"
    by (cases "get_block c a") auto
  have hit: "is_hit c a \<longleftrightarrow> valid \<and> Some (get_tag a) = tg"
    by (simp add: is_hit_def gb)
  show ?thesis
  proof (cases "is_hit c a")
    case True
    define c1 where "c1 = c\<lparr>write_hits := write_hits c + 1\<rparr>"
    have "fst (snd (set_val env c a val ram h)) = c1
          \<or> write_row c1 ix (True, tg, block, t_in, Some (now env))
              = Inr (fst (snd (set_val env c a val ram h)))"
      using off gb True hit by (auto simp: set_val_def c1_def Let_def split: sum.splits option.splits prod.splits)
    then show ?thesis
    proof
      assume "fst (snd (set_val env c a val ram h)) = c1"
      with True have "length (blocks c) = length (blocks c) \<and>
           fst (snd (set_val env c a val ram h)) =
             (if is_hit c a then c\<lparr>blocks := blocks c, write_hits := write_hits c + 1\<rparr>
              else c\<lparr>blocks := blocks c, write_misses := write_misses c + 1\<rparr>)"
        by (simp add: c1_def)
      then show ?thesis by blast
    next
      assume "write_row c1 ix (True, tg, block, t_in, Some (now env))
                = Inr (fst (snd (set_val env c a val ram h)))"
      from write_row_frame [OF this] obtain bs where
        "fst (snd (set_val env c a val ram h)) = c1\<lparr>blocks := bs\<rparr>" and "length bs = length (blocks c1)"
        by blast
      with True have "length bs = length (blocks c) \<and>
           fst (snd (set_val env c a val ram h)) =
             (if is_hit c a then c\<lparr>blocks := bs, write_hits := write_hits c + 1\<rparr>
              else c\<lparr>blocks := bs, write_misses := write_misses c + 1\<rparr>)"
        by (simp add: c1_def)
      then show ?thesis by blast
    qed
  next
    case False
    define c1 where "c1 = c\<lparr>write_misses := write_misses c + 1\<rparr>"
    have "fst (snd (set_val env c a val ram h)) = c1
          \<or> (\<exists>nb. set_block env c1 a nb = Inr (fst (snd (set_val env c a val ram h))))"
      using off gb False hit by (auto simp: set_val_def c1_def Let_def split: sum.splits option.splits prod.splits)
    then show ?thesis
    proof
      assume "fst (snd (set_val env c a val ram h)) = c1"
      with False have "length (blocks c) = length (blocks c) \<and>
           fst (snd (set_val env c a val ram h)) =
             (if is_hit c a then c\<lparr>blocks := blocks c, write_hits := write_hits c + 1\<rparr>
              else c\<lparr>blocks := blocks c, write_misses := write_misses c + 1\<rparr>)"
        by (simp add: c1_def)
      then show ?thesis by blast
    next
      assume "\<exists>nb. set_block env c1 a nb = Inr (fst (snd (set_val env c a val ram h)))"
      then obtain nb where "set_block env c1 a nb = Inr (fst (snd (set_val env c a val ram h)))" ..
      from set_block_frame [OF this] obtain bs where
        "fst (snd (set_val env c a val ram h)) = c1\<lparr>blocks := bs\<rparr>" and "length bs = length (blocks c1)"
        by blast
      with False have "length bs = length (blocks c) \<and>
           fst (snd (set_val env c a val ram h)) =
             (if is_hit c a then c\<lparr>blocks := bs, write_hits := write_hits c + 1\<rparr>
              else c\<lparr>blocks := bs, write_misses := write_misses c + 1\<rparr>)"
        by (simp add: c1_def)
      then show ?thesis by blast
    qed
  qed
qed

lemma Address_init_ok:
  "0 < bs \<Longrightarrow> 0 < entries \<Longrightarrow> 0 < nsets \<Longrightarrow> Address_init raw bs entries nsets \<noteq> Inl e"
  by (simp add: Address_init_def get_index_len_def py_log2_def)

lemma load_counters:
  assumes bs: "0 < block_size (cpu_cache cpu)"
    and bl: "blocks (cpu_cache cpu) \<noteq> []" and st: "sets (cpu_cache cpu) \<noteq> []"
  shows "\<exists>bs. length bs = length (blocks (cpu_cache cpu)) \<and>
           cpu_cache (snd (load env cpu raw h)) =
             (if cpu_hit cpu raw
              then (cpu_cache cpu)\<lparr>blocks := bs, read_hits := read_hits (cpu_cache cpu) + 1\<rparr>
              else (cpu_cache cpu)\<lparr>blocks := bs, read_misses := read_misses (cpu_cache cpu) + 1\<rparr>)"
proof -
  let ?c = "cpu_cache cpu"
  from Address_init_ok [of "block_size ?c" "length (blocks ?c)" "length (sets ?c)" raw] bs bl st
  obtain a where addr:
    "Address_init raw (block_size ?c) (length (blocks ?c)) (length (sets ?c)) = Inr a"
    by (cases "Address_init raw (block_size ?c) (length (blocks ?c)) (length (sets ?c))") auto
  have l: "cpu_cache (snd (load env cpu raw h)) = snd (get_val env ?c a (cpu_ram cpu) h)"
    by (simp add: load_def addr split: prod.splits)
  have hit: "cpu_hit cpu raw = is_hit ?c a"
    by (simp add: cpu_hit_def addr)
  from get_val_counters [OF addr bl st, of env "cpu_ram cpu" h] show ?thesis
    by (simp only: l hit)
qed

lemma store_counters:
  assumes bs: "0 < block_size (cpu_cache cpu)"
    and bl: "blocks (cpu_cache cpu) \<noteq> []" and st: "sets (cpu_cache cpu) \<noteq> []"
  shows "\<exists>bs. length bs = length (blocks (cpu_cache cpu)) \<and>
           cpu_cache (fst (snd (store env cpu raw val h))) =
             (if cpu_hit cpu raw
              then (cpu_cache cpu)\<lparr>blocks := bs, write_hits := write_hits (cpu_cache cpu) + 1\<rparr>
              else (cpu_cache cpu)\<lparr>blocks := bs, write_misses := write_misses (cpu_cache cpu) + 1\<rparr>)"
proof -
  let ?c = "cpu_cache cpu"
  from Address_init_ok [of "block_size ?c" "length (blocks ?c)" "length (sets ?c)" raw] bs bl st
  obtain a where addr:
    "Address_init raw (block_size ?c) (length (blocks ?c)) (length (sets ?c)) = Inr a"
    by (cases "Address_init raw (block_size ?c) (length (blocks ?c)) (length (sets ?c))") auto
  have l: "cpu_cache (fst (snd (store env cpu raw val h)))
             = fst (snd (set_val env ?c a val (cpu_ram cpu) h))"
    by (simp add: store_def addr split: prod.splits)
  have hit: "cpu_hit cpu raw = is_hit ?c a"
    by (simp add: cpu_hit_def addr)
  from set_val_counters [OF addr bl st, of env val "cpu_ram cpu" h] show ?thesis
    by (simp only: l hit)
qed

lemma run_counters:
  assumes "0 < block_size (cpu_cache cpu)"
    and "blocks (cpu_cache cpu) \<noteq> []" and "sets (cpu_cache cpu) \<noteq> []"
  shows "read_hits (cpu_cache (fst (run xs cpu h)))
           = read_hits (cpu_cache cpu) + fst (lookup_hits xs cpu h)
       \<and> read_hits (cpu_cache (fst (run xs cpu h))) + read_misses (cpu_cache (fst (run xs cpu h)))
           = read_hits (cpu_cache cpu) + read_misses (cpu_cache cpu) + num_loads xs
       \<and> write_hits (cpu_cache (fst (run xs cpu h)))
           = write_hits (cpu_cache cpu) + snd (lookup_hits xs cpu h)
       \<and> write_hits (cpu_cache (fst (run xs cpu h))) + write_misses (cpu_cache (fst (run xs cpu h)))
           = write_hits (cpu_cache cpu) + write_misses (cpu_cache cpu) + num_stores xs"
  using assms
proof (induction xs cpu h rule: run.induct)
  case (1 cpu h)
  show ?case by simp
next
  case (2 env raw xs cpu h)
  let ?cpu1 = "snd (load env cpu raw h)"
  from load_counters [OF "2.prems", of env raw h] obtain bs where
    len: "length bs = length (blocks (cpu_cache cpu))" and
    c1: "cpu_cache ?cpu1 =
           (if cpu_hit cpu raw
            then (cpu_cache cpu)\<lparr>blocks := bs, read_hits := read_hits (cpu_cache cpu) + 1\<rparr>
            else (cpu_cache cpu)\<lparr>blocks := bs, read_misses := read_misses (cpu_cache cpu) + 1\<rparr>)"
    by blast
  from c1 len "2.prems" have wf: "0 < block_size (cpu_cache ?cpu1)"
    "blocks (cpu_cache ?cpu1) \<noteq> []" "sets (cpu_cache ?cpu1) \<noteq> []"
    by (auto split: if_splits)
  from "2.IH" [OF wf] c1 show ?case
    by (auto simp: case_prod_beta)
next
  case (3 env raw val xs cpu h)
  obtain res cpu1 h1 where s: "store env cpu raw val h = (res, cpu1, h1)"
    by (cases "store env cpu raw val h") auto
  from store_counters [OF "3.prems", of env raw val h] s obtain bs where
    len: "length bs = length (blocks (cpu_cache cpu))" and
    c1: "cpu_cache cpu1 =
           (if cpu_hit cpu raw
            then (cpu_cache cpu)\<lparr>blocks := bs, write_hits := write_hits (cpu_cache cpu) + 1\<rparr>
            else (cpu_cache cpu)\<lparr>blocks := bs, write_misses := write_misses (cpu_cache cpu) + 1\<rparr>)"
    by auto
  from c1 len "3.prems" have wf: "0 < block_size (cpu_cache cpu1)"
    "blocks (cpu_cache cpu1) \<noteq> []" "sets (cpu_cache cpu1) \<noteq> []"
    by (auto split: if_splits)
  from "3.IH" [OF s [symmetric] refl wf] c1 s show ?case
    by (auto simp: case_prod_beta)
qed

lemma lookup_hits_le:
  "fst (lookup_hits xs cpu h) \<le> num_loads xs \<and> snd (lookup_hits xs cpu h) \<le> num_stores xs"
proof (induction xs cpu h rule: lookup_hits.induct)
  case (1 cpu h)
  show ?case by simp
next
  case (2 env raw xs cpu h)
  then show ?case by (auto simp: case_prod_beta)
next
  case (3 env raw val xs cpu h)
  obtain res cpu1 h1 where s: "store env cpu raw val h = (res, cpu1, h1)"
    by (cases "store env cpu raw val h") auto
  from "3.IH" [OF s [symmetric] refl] s show ?case
    by (auto simp: case_prod_beta)
qed

text \<open>
  What holds of the counters: for a cache with at least one block and one set and a
  positive block size, and an address built for that cache, every call of
  \<open>get_val\<close>, whether it returns or raises, increments \<open>read_hits\<close> by one
  when the cache's lookup finds the tag and otherwise \<open>read_misses\<close> by one, and
  leaves the write counters unchanged; every call of \<open>set_val\<close> does the same to
  the write counters and leaves the read counters unchanged. Over every run of loads and
  stores through the CPU on such a cache no counter decreases, and
  \<open>read_hits + read_misses\<close> grows by the number of loads, likewise for the stores.
  The hits counted are those of the cache's own lookups, which after a read miss in an
  associative cache are not the hits of the access sequence.
\<close>

lemma hit_miss_accounting:
  assumes bs: "0 < block_size c" and bl: "blocks c \<noteq> []" and st: "sets c \<noteq> []"
  shows
    "(\<forall>env raw a ram h.
        Address_init raw (block_size c) (length (blocks c)) (length (sets c)) = Inr a \<longrightarrow>
        (let c1 = snd (get_val env c a ram h)
         in (if is_hit c a
             then read_hits c1 = read_hits c + 1 \<and> read_misses c1 = read_misses c
             else read_hits c1 = read_hits c \<and> read_misses c1 = read_misses c + 1)
            \<and> write_hits c1 = write_hits c \<and> write_misses c1 = write_misses c))
   \<and> (\<forall>env raw a val ram h.
        Address_init raw (block_size c) (length (blocks c)) (length (sets c)) = Inr a \<longrightarrow>
        (let c1 = fst (snd (set_val env c a val ram h))
         in (if is_hit c a
             then write_hits c1 = write_hits c + 1 \<and> write_misses c1 = write_misses c
             else write_hits c1 = write_hits c \<and> write_misses c1 = write_misses c + 1)
            \<and> read_hits c1 = read_hits c \<and> read_misses c1 = read_misses c))
   \<and> (\<forall>xs ram n h.
        (let cpu = \<lparr>cpu_cache = c, cpu_ram = ram, instructions = n\<rparr>;
             c1 = cpu_cache (fst (run xs cpu h))
         in read_hits c1 = read_hits c + fst (lookup_hits xs cpu h)
            \<and> read_hits c1 + read_misses c1 = read_hits c + read_misses c + num_loads xs
            \<and> write_hits c1 = write_hits c + snd (lookup_hits xs cpu h)
            \<and> write_hits c1 + write_misses c1 = write_hits c + write_misses c + num_stores xs
            \<and> read_hits c \<le> read_hits c1 \<and> read_misses c \<le> read_misses c1
            \<and> write_hits c \<le> write_hits c1 \<and> write_misses c \<le> write_misses c1))"
proof (intro conjI allI impI)
  fix env raw a ram h
  assume addr: "Address_init raw (block_size c) (length (blocks c)) (length (sets c)) = Inr a"
  from get_val_counters [OF addr bl st, of env ram h]
  show "let c1 = snd (get_val env c a ram h)
        in (if is_hit c a
            then read_hits c1 = read_hits c + 1 \<and> read_misses c1 = read_misses c
            else read_hits c1 = read_hits c \<and> read_misses c1 = read_misses c + 1)
           \<and> write_hits c1 = write_hits c \<and> write_misses c1 = write_misses c"
    by (auto simp: Let_def)
next
  fix env raw a val ram h
  assume addr: "Address_init raw (block_size c) (length (blocks c)) (length (sets c)) = Inr a"
  from set_val_counters [OF addr bl st, of env val ram h]
  show "let c1 = fst (snd (set_val env c a val ram h))
        in (if is_hit c a
            then write_hits c1 = write_hits c + 1 \<and> write_misses c1 = write_misses c
            else write_hits c1 = write_hits c \<and> write_misses c1 = write_misses c + 1)
           \<and> read_hits c1 = read_hits c \<and> read_misses c1 = read_misses c"
    by (auto simp: Let_def)
next
  fix xs ram n h
  define cpu where "cpu = \<lparr>cpu_cache = c, cpu_ram = ram, instructions = n\<rparr>"
  define c1 where "c1 = cpu_cache (fst (run xs cpu h))"
  have wf: "0 < block_size (cpu_cache cpu)" "blocks (cpu_cache cpu) \<noteq> []"
    "sets (cpu_cache cpu) \<noteq> []"
    using bs bl st by (simp_all add: cpu_def)
  from run_counters [OF wf, of xs h]
  have eqs: "read_hits c1 = read_hits c + fst (lookup_hits xs cpu h)"
    "read_hits c1 + read_misses c1 = read_hits c + read_misses c + num_loads xs"
    "write_hits c1 = write_hits c + snd (lookup_hits xs cpu h)"
    "write_hits c1 + write_misses c1 = write_hits c + write_misses c + num_stores xs"
    by (simp_all add: c1_def cpu_def)
  note hits = lookup_hits_le [of xs cpu h]
  from eqs hits have
    "read_hits c \<le> read_hits c1 \<and> read_misses c \<le> read_misses c1
     \<and> write_hits c \<le> write_hits c1 \<and> write_misses c \<le> write_misses c1"
    by linarith
  with eqs show
    "let cpu = \<lparr>cpu_cache = c, cpu_ram = ram, instructions = n\<rparr>;
         c1 = cpu_cache (fst (run xs cpu h))
     in read_hits c1 = read_hits c + fst (lookup_hits xs cpu h)
        \<and> read_hits c1 + read_misses c1 = read_hits c + read_misses c + num_loads xs
        \<and> write_hits c1 = write_hits c + snd (lookup_hits xs cpu h)
        \<and> write_hits c1 + write_misses c1 = write_hits c + write_misses c + num_stores xs
        \<and> read_hits c \<le> read_hits c1 \<and> read_misses c \<le> read_misses c1
        \<and> write_hits c \<le> write_hits c1 \<and> write_misses c \<le> write_misses c1"
    unfolding Let_def cpu_def [symmetric] c1_def [symmetric] by blast
qed

text \<open>
  An instance: a direct-mapped cache of four blocks and the run store 0, store 32,
  load 32, load 0, store 0, with one read hit, one read miss, one write hit and two
  write misses.
\<close>

lemma hit_miss_accounting_instance:
  "(let c = cpu_cache (fst (projr (CPU_init 8 1 4 8 ''LRU'' empty_heap)));
        ram = cpu_ram (fst (projr (CPU_init 8 1 4 8 ''LRU'' empty_heap)));
        h = snd (projr (CPU_init 8 1 4 8 ''LRU'' empty_heap));
        cpu = \<lparr>cpu_cache = c, cpu_ram = ram, instructions = 0\<rparr>;
        xs = [(\<lparr>now = 1, now_replace = 1, pick = 0\<rparr>, Store 0 (Num 1)),
              (\<lparr>now = 2, now_replace = 2, pick = 0\<rparr>, Store 32 (Num 2)),
              (\<lparr>now = 3, now_replace = 3, pick = 0\<rparr>, Load 32),
              (\<lparr>now = 4, now_replace = 4, pick = 0\<rparr>, Load 0),
              (\<lparr>now = 5, now_replace = 5, pick = 0\<rparr>, Store 0 (Num 3))];
        c1 = cpu_cache (fst (run xs cpu h))
    in 0 < block_size c \<and> blocks c \<noteq> [] \<and> sets c \<noteq> []
       \<and> lookup_hits xs cpu h = (1, 1) \<and> num_loads xs = 2 \<and> num_stores xs = 3
       \<and> read_hits c1 = 1 \<and> read_misses c1 = 1
       \<and> write_hits c1 = 1 \<and> write_misses c1 = 2)"
proof -
  define c where "c = cpu_cache (fst (projr (CPU_init 8 1 4 8 ''LRU'' empty_heap)))"
  define ram where "ram = cpu_ram (fst (projr (CPU_init 8 1 4 8 ''LRU'' empty_heap)))"
  define h where "h = snd (projr (CPU_init 8 1 4 8 ''LRU'' empty_heap))"
  define cpu where "cpu = \<lparr>cpu_cache = c, cpu_ram = ram, instructions = 0\<rparr>"
  define xs where
    "xs = [(\<lparr>now = 1, now_replace = 1, pick = 0\<rparr>, Store 0 (Num 1)),
           (\<lparr>now = 2, now_replace = 2, pick = 0\<rparr>, Store 32 (Num 2)),
           (\<lparr>now = 3, now_replace = 3, pick = 0::nat\<rparr>, Load 32),
           (\<lparr>now = 4, now_replace = 4, pick = 0\<rparr>, Load 0),
           (\<lparr>now = 5, now_replace = 5, pick = 0\<rparr>, Store 0 (Num 3))]"
  define c1 where "c1 = cpu_cache (fst (run xs cpu h))"
  note defs = c_def ram_def h_def cpu_def xs_def
  have w1: "0 < block_size c" unfolding defs by code_simp
  have w2: "blocks c \<noteq> []" unfolding defs by code_simp
  have w3: "sets c \<noteq> []" unfolding defs by code_simp
  have k: "lookup_hits xs cpu h = (1, 1)" unfolding defs by code_simp
  have n: "num_loads xs = 2" "num_stores xs = 3" unfolding defs by code_simp+
  have z: "read_hits c = 0" "read_misses c = 0" "write_hits c = 0" "write_misses c = 0"
    unfolding defs by code_simp+
  from hit_miss_accounting [OF w1 w2 w3]
  have "let cpu = \<lparr>cpu_cache = c, cpu_ram = ram, instructions = 0\<rparr>;
            c1 = cpu_cache (fst (run xs cpu h))
        in read_hits c1 = read_hits c + fst (lookup_hits xs cpu h)
           \<and> read_hits c1 + read_misses c1 = read_hits c + read_misses c + num_loads xs
           \<and> write_hits c1 = write_hits c + snd (lookup_hits xs cpu h)
           \<and> write_hits c1 + write_misses c1 = write_hits c + write_misses c + num_stores xs
           \<and> read_hits c \<le> read_hits c1 \<and> read_misses c \<le> read_misses c1
           \<and> write_hits c \<le> write_hits c1 \<and> write_misses c \<le> write_misses c1"
    by blast
  then have "read_hits c1 = 1 \<and> read_misses c1 = 1 \<and> write_hits c1 = 1 \<and> write_misses c1 = 2"
    unfolding Let_def cpu_def [symmetric] c1_def [symmetric] k n z by simp
  with w1 w2 w3 k n show ?thesis
    unfolding Let_def c_def [symmetric] ram_def [symmetric] h_def [symmetric]
      cpu_def [symmetric] xs_def [symmetric] c1_def [symmetric]
    by blast
qed

section \<open>Write-through and reads in a direct-mapped cache\<close>

lemma Block_set_val_Inr:
  assumes "Block_set_val r val loc tg h = (Inr u, h1)"
  shows "loc < length (data (objs h1 r)) \<and> data (objs h1 r) ! loc = val
         \<and> tag (objs h1 r) = Some tg"
  using assms by (auto simp: Block_set_val_def Let_def split: if_splits)

lemma RAM_set_block_Inr:
  assumes "RAM_set_block ram tg ix r = Inr ram1"
  shows "\<exists>i. py_int2 (tg @ ix) = Inr i \<and> i < length (ram_blocks ram1)
             \<and> ram_blocks ram1 ! i = (True, r)"
  using assms by (auto simp: RAM_set_block_def split: sum.splits if_splits)

lemma RAM_get_block_Some:
  assumes "RAM_get_block ram tg ix = Inr (Some r)"
  shows "\<exists>i. py_int2 (tg @ ix) = Inr i \<and> i < length (ram_blocks ram)
             \<and> ram_blocks ram ! i = (True, r)"
  using assms by (auto simp: RAM_get_block_def split: sum.splits if_splits prod.splits)

lemma miss_block_Inr:
  assumes "miss_block c a val offset found ram h = (Inr r, ram1, h1)"
    and "RAM_get_block ram (get_tag a) (get_index a) = Inr found"
  shows "\<exists>i. py_int2 (get_tag a @ get_index a) = Inr i \<and> i < length (ram_blocks ram1)
             \<and> ram_blocks ram1 ! i = (True, r)
             \<and> offset < length (data (objs h1 r)) \<and> data (objs h1 r) ! offset = val
             \<and> tag (objs h1 r) = Some (get_tag a)"
proof (cases "case found of None \<Rightarrow> False | Some r \<Rightarrow> tag (objs h r) = Some (get_tag a)")
  case True
  then obtain r0 where f: "found = Some r0" by (cases found) auto
  with True assms(1) obtain u where
    b: "Block_set_val r0 val offset (get_tag a) h = (Inr u, h1)" and r: "r = r0" and
    rm: "ram1 = ram"
    by (auto simp: miss_block_def split: prod.splits sum.splits)
  from RAM_get_block_Some [OF assms(2) [unfolded f]] Block_set_val_Inr [OF b] r rm
  show ?thesis by auto
next
  case False
  with assms(1) obtain h0 u h2 where
    al: "alloc_block (block_size c) h = (r, h0)" and
    b: "Block_set_val r val offset (get_tag a) h0 = (Inr u, h1)" and
    s: "RAM_set_block ram (get_tag a) (get_index a) r = Inr ram1"
    by (auto simp: miss_block_def split: prod.splits sum.splits)
  from RAM_set_block_Inr [OF s] Block_set_val_Inr [OF b] show ?thesis by auto
qed

text \<open>
  Write-through: whenever \<open>set_val\<close> returns, on a hit or on a miss, the RAM's slot
  for the address's tag and index is valid and refers to a block that holds the written
  value at the address's offset.
\<close>

lemma set_val_write_through:
  assumes "set_val env c a val ram h = (Inr u, c1, ram1, h1)"
  shows "\<exists>i r offset. py_int2 (get_tag a @ get_index a) = Inr i
           \<and> py_int2 (get_offset a) = Inr offset
           \<and> i < length (ram_blocks ram1) \<and> ram_blocks ram1 ! i = (True, r)
           \<and> offset < length (data (objs h1 r)) \<and> data (objs h1 r) ! offset = val
           \<and> RAM_get_block ram1 (get_tag a) (get_index a) = Inr (Some r)"
proof -
  from assms obtain offset where off: "py_int2 (get_offset a) = Inr offset"
    by (auto simp: set_val_def split: sum.splits)
  from assms off obtain ix valid tg block t_in t_acc where
    gb: "get_block c a = Inr (ix, valid, tg, block, t_in, t_acc)"
    by (auto simp: set_val_def split: sum.splits)
  have "\<exists>i r. py_int2 (get_tag a @ get_index a) = Inr i
           \<and> i < length (ram_blocks ram1) \<and> ram_blocks ram1 ! i = (True, r)
           \<and> offset < length (data (objs h1 r)) \<and> data (objs h1 r) ! offset = val"
  proof (cases "valid \<and> Some (get_tag a) = tg")
    case True
    with assms off gb obtain r u1 where
      b: "Block_set_val r val offset (get_tag a) h = (Inr u1, h1)" and
      s: "RAM_set_block ram (get_tag a) (get_index a) r = Inr ram1"
      by (auto simp: set_val_def Let_def split: sum.splits option.splits prod.splits)
    from RAM_set_block_Inr [OF s] Block_set_val_Inr [OF b] show ?thesis by auto
  next
    case False
    with assms off gb obtain found r where
      g: "RAM_get_block ram (get_tag a) (get_index a) = Inr found" and
      m: "miss_block (c\<lparr>write_misses := write_misses c + 1\<rparr>) a val offset found ram h
            = (Inr r, ram1, h1)"
      by (auto simp: set_val_def Let_def split: sum.splits prod.splits)
    from miss_block_Inr [OF m g] show ?thesis by auto
  qed
  then obtain i r where *: "py_int2 (get_tag a @ get_index a) = Inr i"
    "i < length (ram_blocks ram1)" "ram_blocks ram1 ! i = (True, r)"
    "offset < length (data (objs h1 r))" "data (objs h1 r) ! offset = val"
    by blast
  then have "RAM_get_block ram1 (get_tag a) (get_index a) = Inr (Some r)"
    by (simp add: RAM_get_block_def)
  with * off show ?thesis by blast
qed

text \<open>
  In a direct-mapped cache a read that misses on a row that still has a block, while the
  RAM holds a block for the address, installs the fetched block in the row of the
  address's index and returns the word at the offset.
\<close>

lemma direct_mapped_read_miss_installs:
  assumes dm: "length (sets c) = 1"
    and idx: "index_of a = Inr index" and lt: "index < length (blocks c)"
    and row: "blocks c ! index = (valid, tg, Some b0, t_in, t_acc)"
    and miss: "\<not> (valid \<and> Some (get_tag a) = tg)"
    and off: "py_int2 (get_offset a) = Inr offset"
    and ram: "RAM_get_block ram (get_tag a) (get_index a) = Inr (Some r)"
    and len: "offset < length (data (objs h r))"
  shows "get_val env c a ram h =
           (Inr (Some (data (objs h r) ! offset)),
            c\<lparr>read_misses := read_misses c + 1,
              blocks := (blocks c)[index := (True, Some (get_tag a), Some r,
                            (if valid then t_in else Some (now env)), Some (now env))]\<rparr>)"
proof -
  have gb: "get_block c a = Inr (Some index, valid, tg, Some b0, t_in, t_acc)"
    using dm idx lt row by (simp add: get_block_def)
  have sb: "set_block env (c\<lparr>read_misses := Suc (read_misses c)\<rparr>) a (Some r) =
          Inr (c\<lparr>read_misses := Suc (read_misses c),
              blocks := (blocks c)[index := (True, Some (get_tag a), Some r,
                            (if valid then t_in else Some (now env)), Some (now env))]\<rparr>)"
    using dm idx lt row by (simp add: set_block_def write_row_def Let_def)
  show ?thesis
    using miss off ram len
    by (auto simp: get_val_def gb sb read_word_def Let_def)
qed

text \<open>
  With as many sets as blocks the index has no bits, every address selects set 0, and a
  set is one slot.
\<close>

lemma same_sets_as_blocks_index:
  assumes "Address_init raw bsize n n = Inr a"
  shows "index_len a = 0 \<and> get_index a = [] \<and> index_of a = Inr 0"
proof -
  from Address_init_Inr(4) [OF assms] have il: "index_len a = 0"
    by (simp add: ilog2.simps)
  then have "get_index a = []"
    by (simp add: get_index_def py_slice_def Let_def)
  with il show ?thesis by (simp add: index_of_def)
qed

lemma same_sets_as_blocks_sets:
  "0 < n \<Longrightarrow> get_sets n n = Inr (1, sets_loop n 1 0)"
  by (simp add: get_sets_def)

section \<open>The RAM slot of an address\<close>

lemma bits_val_append:
  "bits_val acc (xs @ ys) = (case bits_val acc xs of Inl e \<Rightarrow> Inl e | Inr v \<Rightarrow> bits_val v ys)"
  by (induction xs arbitrary: acc) simp_all

lemma bits_val_div: "bits_val v ys = Inr w \<Longrightarrow> w div 2 ^ length ys = v"
proof (induction ys arbitrary: v)
  case Nil
  then show ?case by simp
next
  case (Cons c cs)
  have d: "w div 2 ^ length (c # cs) = (w div 2 ^ length cs) div 2"
    unfolding length_Cons power_Suc2 by (rule div_mult2_eq)
  from Cons.prems have "(c = CHR ''0'' \<and> bits_val (2 * v) cs = Inr w)
      \<or> (c = CHR ''1'' \<and> bits_val (2 * v + 1) cs = Inr w)"
    by (auto split: if_splits)
  then show ?case
  proof
    assume "c = CHR ''0'' \<and> bits_val (2 * v) cs = Inr w"
    then have "w div 2 ^ length cs = 2 * v" using Cons.IH by blast
    with d show ?thesis by simp
  next
    assume "c = CHR ''1'' \<and> bits_val (2 * v + 1) cs = Inr w"
    then have "w div 2 ^ length cs = 2 * v + 1" using Cons.IH by blast
    with d show ?thesis by simp
  qed
qed

lemma bits_val_bin_digits:
  "bits_val acc (bin_digits n) = Inr (acc * 2 ^ length (bin_digits n) + n)"
proof (induction n arbitrary: acc rule: bin_digits.induct)
  case (1 n)
  show ?case
  proof (cases "n < 2")
    case True
    then have "n = 0 \<or> n = 1" by auto
    then show ?thesis by (subst (1 2) bin_digits.simps) auto
  next
    case False
    with 1 have ih: "bits_val acc (bin_digits (n div 2))
        = Inr (acc * 2 ^ length (bin_digits (n div 2)) + n div 2)" by simp
    have n: "2 * (n div 2) + n mod 2 = n" by simp
    have "bits_val acc (bin_digits (n div 2) @ [if n mod 2 = 0 then CHR ''0'' else CHR ''1''])
            = Inr (2 * (acc * 2 ^ length (bin_digits (n div 2)) + n div 2) + n mod 2)"
    proof (cases "n mod 2 = 0")
      case True
      then show ?thesis by (simp add: bits_val_append ih)
    next
      case odd: False
      then have "n mod 2 = 1" by presburger
      with odd show ?thesis by (simp add: bits_val_append ih)
    qed
    also have "2 * (acc * 2 ^ length (bin_digits (n div 2)) + n div 2) + n mod 2
                 = acc * 2 ^ Suc (length (bin_digits (n div 2))) + n"
      using n by (simp add: algebra_simps)
    finally show ?thesis using False
      by (subst (1 2) bin_digits.simps) simp
  qed
qed

lemma bits_val_zeros: "bits_val 0 (replicate k CHR ''0'' @ s) = bits_val 0 s"
  by (induction k) simp_all

lemma bits_val_get_binary: "bits_val 0 (get_binary raw) = Inr raw"
  by (simp add: get_binary_def Let_def bits_val_zeros bits_val_bin_digits)

text \<open>
  The numeric value of tag and index together is the address without its offset bits:
  the RAM slot of an address is its block number.
\<close>

lemma tag_index_value:
  assumes addr: "Address_init raw bsize entries nsets = Inr a"
    and raw: "raw < 2 ^ 32" and t: "0 \<le> tag_len a" and ol: "offset_len a < 32"
  shows "py_int2 (get_tag a @ get_index a) = Inr (raw div 2 ^ nat (offset_len a))"
proof -
  let ?s = "get_binary raw"
  from Address_init_Inr [OF addr] have ad: "address a = ?s" and o0: "0 \<le> offset_len a"
    and i0: "0 \<le> index_len a" by simp_all
  from addr have sum: "tag_len a = 32 - offset_len a - index_len a"
    by (auto simp: Address_init_def split: sum.splits)
  have len: "length ?s = 32" using raw by (rule length_get_binary)
  define k where "k = nat (tag_len a + index_len a)"
  have k: "k = 32 - nat (offset_len a)" and kpos: "0 < k" and kle: "k \<le> 32"
    using sum t o0 i0 ol by (simp_all add: k_def)
  have tl: "nat (tag_len a) \<le> 32" and til: "nat (tag_len a) + nat (index_len a) \<le> 32"
    using sum t o0 i0 by linarith+
  have n1: "norm_index 32 (tag_len a) = nat (tag_len a)"
    using t tl by (simp add: norm_index_def)
  have n2: "norm_index 32 (tag_len a + index_len a) = nat (tag_len a) + nat (index_len a)"
    using t i0 til by (simp add: norm_index_def nat_add_distrib)
  have tg: "get_tag a = take (nat (tag_len a)) ?s"
    by (simp add: get_tag_def ad py_slice_def len n1)
  have ix: "get_index a = take (nat (index_len a)) (drop (nat (tag_len a)) ?s)"
    by (simp add: get_index_def ad py_slice_def len n1 n2)
  have ti: "get_tag a @ get_index a = take k ?s"
    using t i0 by (simp add: tg ix k_def nat_add_distrib take_add)
  have ne: "take k ?s \<noteq> []" using kpos len by auto
  have "(case bits_val 0 (take k ?s) of Inl e \<Rightarrow> Inl e | Inr v \<Rightarrow> bits_val v (drop k ?s))
          = Inr raw"
    using bits_val_append [of 0 "take k ?s" "drop k ?s"] by (simp add: bits_val_get_binary)
  then obtain v where v: "bits_val 0 (take k ?s) = Inr v" and w: "bits_val v (drop k ?s) = Inr raw"
    by (auto split: sum.splits)
  from bits_val_div [OF w] have "raw div 2 ^ (32 - k) = v" using len by simp
  moreover have "32 - k = nat (offset_len a)" using k o0 ol by simp
  ultimately have "v = raw div 2 ^ nat (offset_len a)" by simp
  with v ne show ?thesis by (simp add: ti py_int2_def)
qed

text \<open>
  So \<open>RAM.set_block\<close> succeeds on the tag and index of every address whose block
  number is below the RAM's number of blocks.
\<close>

lemma RAM_set_block_of_address:
  assumes addr: "Address_init raw (2 ^ b) entries nsets = Inr a"
    and raw: "raw < 2 ^ 32" and t: "0 \<le> tag_len a" and b: "b < 32"
    and cap: "raw div 2 ^ b < length (ram_blocks ram)"
  shows "RAM_set_block ram (get_tag a) (get_index a) block =
           Inr (ram\<lparr>ram_blocks := (ram_blocks ram)[raw div 2 ^ b := (True, block)]\<rparr>)"
proof -
  from Address_init_Inr(3) [OF addr] have ol: "offset_len a = int b" by simp
  with b have "offset_len a < 32" by simp
  from tag_index_value [OF addr raw t this] ol cap show ?thesis
    by (simp add: RAM_set_block_def)
qed

text \<open>
  C6: the read counters do not count the hits of the access sequence. In a cache of two
  sets of two ways, stores to addresses 0, 16 and 32 (three tags of set 0) leave the
  block of address 0 in RAM and evict it from the cache. Two loads of address 0 follow:
  the first is a miss, and the second, a repeated read of the block just fetched, is a
  hit of the sequence; but the first load installs nothing, both loads return \<open>None\<close>,
  and the counters end at 0 read hits and 2 read misses instead of 1 and 1.
\<close>

theorem repeated_load_counted_as_miss:
  "(case CPU_init 8 2 4 8 ''LRU'' empty_heap of
      Inl e \<Rightarrow> False
    | Inr (cpu, h) \<Rightarrow>
        (case run [(\<lparr>now = 1, now_replace = 1, pick = 0\<rparr>, Store 0 (Num 1)),
                   (\<lparr>now = 2, now_replace = 2, pick = 0\<rparr>, Store 16 (Num 2)),
                   (\<lparr>now = 3, now_replace = 4, pick = 0\<rparr>, Store 32 (Num 3))] cpu h of
           (cpu1, h1) \<Rightarrow>
             (case load \<lparr>now = 5, now_replace = 5, pick = 0\<rparr> cpu1 0 h1 of
                (res1, cpu2) \<Rightarrow>
                  (case load \<lparr>now = 6, now_replace = 6, pick = 0\<rparr> cpu2 0 h1 of
                     (res2, cpu3) \<Rightarrow>
                       fst (ram_blocks (cpu_ram cpu1) ! 0)
                       \<and> read_hits (cpu_cache cpu1) = 0 \<and> read_misses (cpu_cache cpu1) = 0
                       \<and> res1 = Inr None \<and> res2 = Inr None
                       \<and> blocks (cpu_cache cpu3) = blocks (cpu_cache cpu1)
                       \<and> read_hits (cpu_cache cpu3) = 0
                       \<and> read_misses (cpu_cache cpu3) = 2))))"
  by code_simp

end
